theory Spec2Isabelle
  imports Main "HOL-Library.Word"
begin

unbundle bit_operations_syntax

chapter \<open>gifp: a parallel single-frame GIF encoder on the 216-colour web-safe palette\<close>

text \<open>
  The development embeds \<^verbatim>\<open>gif.go\<close> (package \<^verbatim>\<open>gip\<close>): \<^verbatim>\<open>Encode\<close>,
  \<^verbatim>\<open>mapColors\<close>, \<^verbatim>\<open>getColorMapper\<close>, \<^verbatim>\<open>encodeGIF\<close>, \<^verbatim>\<open>writeLZWData\<close>,
  \<^verbatim>\<open>writeParallelLZW\<close>, \<^verbatim>\<open>blockWriter\<close>, \<^verbatim>\<open>writeUint16\<close>,
  \<^verbatim>\<open>writeColorTable\<close> and \<^verbatim>\<open>log2\<close>, together with the parts of Go's standard
  library they call (\<^verbatim>\<open>image\<close>, \<^verbatim>\<open>image/color\<close>, \<^verbatim>\<open>image/color/palette\<close>,
  \<^verbatim>\<open>compress/lzw\<close>, \<^verbatim>\<open>bufio\<close>).

  Conventions.
  \<^item> Go's \<^verbatim>\<open>int\<close> has 64 bits. The coordinates of a point, which the caller of
    \<^verbatim>\<open>Encode\<close> is free to choose, are 64-bit words read as signed numbers
    (\<^term>\<open>sint\<close>): the sides of a rectangle and its translation wrap as in Go. Row
    and column numbers, sizes and worker counts are \<^typ>\<open>int\<close>. Of the operations on
    them, \<^verbatim>\<open>workers*4\<close> leaves the 64-bit range for a large worker count and is
    wrapped by \<open>wrap64\<close>; the others work on numbers bounded by the sides of the
    index buffer (for the rows of \<^verbatim>\<open>mapColors\<close>, see the remark there).
    \<^verbatim>\<open>uint8\<close>, \<^verbatim>\<open>uint16\<close> and \<^verbatim>\<open>uint32\<close> are words, so conversions
    truncate as in Go.
  \<^item> A run-time panic (index or slice out of range, negative allocation, division by
    zero) is the result \<open>Inl Panic\<close>; a returned \<^verbatim>\<open>error\<close> is \<open>Inl\<close> of its own
    constructor.
  \<^item> The byte sink is the sequence of bytes it has received. Its writes succeed and
    it is not itself a \<^verbatim>\<open>bufio.Writer\<close> (a \<^verbatim>\<open>bytes.Buffer\<close>, say); the branches
    that only propagate a failed sink write therefore have no counterpart.
  \<^item> Goroutines that write disjoint regions and are joined by a \<^verbatim>\<open>WaitGroup\<close> are
    run one after the other in worker order.
\<close>

section \<open>Machine types, errors, sequencing\<close>

type_synonym u8 = "8 word"
type_synonym u16 = "16 word"
type_synonym u32 = "32 word"
type_synonym int64 = "64 word"

datatype error =
    ImageTooLarge          \<comment> \<open>\<^verbatim>\<open>gif: image is too large to encode\<close>\<close>
  | EmptyPalette           \<comment> \<open>\<^verbatim>\<open>gif: cannot encode image block with empty palette\<close>\<close>
  | LzwInputTooLarge       \<comment> \<open>\<^verbatim>\<open>lzw: input byte too large for the litWidth\<close>\<close>
  | LzwLitWidthOutOfRange  \<comment> \<open>\<^verbatim>\<open>lzw: litWidth %d out of range\<close>\<close>
  | Panic                  \<comment> \<open>a run-time panic\<close>

text \<open>A loop whose body can fail: the first failure ends it.\<close>

fun foldM :: "('a \<Rightarrow> 's \<Rightarrow> error + 's) \<Rightarrow> 'a list \<Rightarrow> 's \<Rightarrow> error + 's" where
  "foldM f [] s = Inr s"
| "foldM f (x # xs) s = (case f x s of Inl e \<Rightarrow> Inl e | Inr s' \<Rightarrow> foldM f xs s')"

text \<open>Go's integer division truncates towards zero; the callers check the divisor.\<close>

definition quo :: "int \<Rightarrow> int \<Rightarrow> int" where
  "quo a b = sgn a * sgn b * (\<bar>a\<bar> div \<bar>b\<bar>)"

text \<open>
  The value a 64-bit \<^verbatim>\<open>int\<close> takes when the exact result of an operation is \<open>v\<close>:
  the number between \<open>-2\<^sup>6\<^sup>3\<close> and \<open>2\<^sup>6\<^sup>3 - 1\<close> that differs from \<open>v\<close> by a
  multiple of \<open>2\<^sup>6\<^sup>4\<close>.
\<close>

definition wrap64 :: "int \<Rightarrow> int" where
  "wrap64 v = (v + 2 ^ 63) mod 2 ^ 64 - 2 ^ 63"

text \<open>
  The slice expression \<^verbatim>\<open>s[lo:hi]\<close> (capacity = length) and the built-in
  \<^verbatim>\<open>copy(dst[lo:hi], src)\<close>, which copies \<open>min (hi - lo) (len src)\<close> elements.
\<close>

definition sliceOf :: "'a list \<Rightarrow> int \<Rightarrow> int \<Rightarrow> error + 'a list" where
  "sliceOf s lo hi =
     (if 0 \<le> lo \<and> lo \<le> hi \<and> hi \<le> int (length s)
      then Inr (take (nat (hi - lo)) (drop (nat lo) s)) else Inl Panic)"

definition copy_at :: "'a list \<Rightarrow> nat \<Rightarrow> nat \<Rightarrow> 'a list \<Rightarrow> 'a list" where
  "copy_at dst lo hi src =
     (let k = min (hi - lo) (length src) in take lo dst @ take k src @ drop (lo + k) dst)"

definition copy_slice :: "'a list \<Rightarrow> int \<Rightarrow> int \<Rightarrow> 'a list \<Rightarrow> error + 'a list" where
  "copy_slice dst lo hi src =
     (if 0 \<le> lo \<and> lo \<le> hi \<and> hi \<le> int (length dst)
      then Inr (copy_at dst (nat lo) (nat hi) src) else Inl Panic)"

section \<open>Geometry and colours (packages image and image/color)\<close>

record point =
  px :: int64
  py :: int64

record rectangle =
  rmin :: point
  rmax :: point

definition Dx :: "rectangle \<Rightarrow> int" where
  "Dx r = sint (px (rmax r) - px (rmin r))"

definition Dy :: "rectangle \<Rightarrow> int" where
  "Dy r = sint (py (rmax r) - py (rmin r))"

definition point_In :: "int \<Rightarrow> int \<Rightarrow> rectangle \<Rightarrow> bool" where
  "point_In x y r \<longleftrightarrow>
     sint (px (rmin r)) \<le> x \<and> x < sint (px (rmax r)) \<and>
     sint (py (rmin r)) \<le> y \<and> y < sint (py (rmax r))"

definition rectangle_Sub :: "rectangle \<Rightarrow> point \<Rightarrow> rectangle" where
  "rectangle_Sub r p =
     \<lparr>rmin = \<lparr>px = px (rmin r) - px p, py = py (rmin r) - py p\<rparr>,
      rmax = \<lparr>px = px (rmax r) - px p, py = py (rmax r) - py p\<rparr>\<rparr>"

text \<open>
  A \<^verbatim>\<open>color.Color\<close>: the three concrete types the code meets, and any other
  implementation given by what its \<^verbatim>\<open>RGBA()\<close> method returns.
\<close>

datatype color =
    RGBA u8 u8 u8 u8
  | NRGBA u8 u8 u8 u8
  | RGBA64 u16 u16 u16 u16
  | OtherColor u32 u32 u32 u32

definition spread8 :: "u8 \<Rightarrow> u32" where
  \<comment> \<open>\<^verbatim>\<open>r = uint32(c.R); r |= r << 8\<close>\<close>
  "spread8 v = (ucast v :: u32) OR push_bit 8 (ucast v)"

fun color_RGBA :: "color \<Rightarrow> u32 \<times> u32 \<times> u32 \<times> u32" where
  "color_RGBA (RGBA r g b a) = (spread8 r, spread8 g, spread8 b, spread8 a)"
| "color_RGBA (NRGBA r g b a) =
     (spread8 r * ucast a div 0xff, spread8 g * ucast a div 0xff,
      spread8 b * ucast a div 0xff, spread8 a)"
| "color_RGBA (RGBA64 r g b a) = (ucast r, ucast g, ucast b, ucast a)"
| "color_RGBA (OtherColor r g b a) = (r, g, b, a)"

text \<open>\<^verbatim>\<open>color.NRGBAModel.Convert(c).(color.NRGBA)\<close>, as its fields R, G, B, A.\<close>

fun nrgbaModel :: "color \<Rightarrow> u8 \<times> u8 \<times> u8 \<times> u8" where
  "nrgbaModel (NRGBA r g b a) = (r, g, b, a)"
| "nrgbaModel c =
     (case color_RGBA c of (r, g, b, a) \<Rightarrow>
        if a = 0xffff then (ucast (drop_bit 8 r), ucast (drop_bit 8 g), ucast (drop_bit 8 b), 0xff)
        else if a = 0 then (0, 0, 0, 0)
        else (ucast (drop_bit 8 (r * 0xffff div a)), ucast (drop_bit 8 (g * 0xffff div a)),
              ucast (drop_bit 8 (b * 0xffff div a)), ucast (drop_bit 8 a)))"

text \<open>
  \<^verbatim>\<open>palette.WebSafe\<close>: the 216 opaque colours of the 6x6x6 cube, red outermost,
  each channel one of 0x00, 0x33, 0x66, 0x99, 0xcc, 0xff.
\<close>

definition WebSafe :: "color list" where
  "WebSafe = concat (map (\<lambda>r. concat (map (\<lambda>g. map (\<lambda>b.
       RGBA (of_nat (51 * r)) (of_nat (51 * g)) (of_nat (51 * b)) 0xff) [0..<6]) [0..<6])) [0..<6])"

text \<open>
  The source image: its bounds, \<^verbatim>\<open>At\<close>, and \<^verbatim>\<open>RGBA64At\<close> when the dynamic type
  implements \<^verbatim>\<open>image.RGBA64Image\<close> (the type assertion in \<^verbatim>\<open>getColorMapper\<close>).
\<close>

record image =
  Bounds :: rectangle
  At :: "int \<Rightarrow> int \<Rightarrow> color"
  RGBA64At :: "(int \<Rightarrow> int \<Rightarrow> u16 \<times> u16 \<times> u16 \<times> u16) option"

record paletted =
  Pix :: "u8 list"
  Stride :: int
  Rect :: rectangle
  Palette :: "color list"

text \<open>\<^verbatim>\<open>image.NewPaletted\<close> panics when the rectangle has a negative side.\<close>

definition NewPaletted :: "rectangle \<Rightarrow> color list \<Rightarrow> error + paletted" where
  "NewPaletted r p =
     (if Dx r < 0 \<or> Dy r < 0 then Inl Panic
      else Inr \<lparr>Pix = replicate (nat (1 * Dx r * Dy r)) 0, Stride = 1 * Dx r,
                Rect = r, Palette = p\<rparr>)"

definition PixOffset :: "paletted \<Rightarrow> int \<Rightarrow> int \<Rightarrow> int" where
  "PixOffset p x y =
     (y - sint (py (rmin (Rect p)))) * Stride p + (x - sint (px (rmin (Rect p)))) * 1"

definition SetColorIndex :: "paletted \<Rightarrow> int \<Rightarrow> int \<Rightarrow> u8 \<Rightarrow> error + paletted" where
  "SetColorIndex p x y index =
     (if \<not> point_In x y (Rect p) then Inr p
      else let i = PixOffset p x y
           in if 0 \<le> i \<and> i < int (length (Pix p))
              then Inr (p\<lparr>Pix := (Pix p)[nat i := index]\<rparr>) else Inl Panic)"

section \<open>The colour quantizer\<close>

text \<open>The 256 entries of \<^verbatim>\<open>FastGifLut\<close>, sixteen to a line.\<close>

definition FastGifLut :: "int list" where
  "FastGifLut =
     [0, 0, 0, 0, 0, 0, 0, 0, 0, 0, 0, 0, 0, 0, 0, 0] @
     [0, 0, 0, 0, 0, 0, 0, 0, 0, 0, 1, 1, 1, 1, 1, 1] @
     [1, 1, 1, 1, 1, 1, 1, 1, 1, 1, 1, 1, 1, 1, 1, 1] @
     [1, 1, 1, 1, 1, 1, 1, 1, 1, 1, 1, 1, 1, 1, 1, 1] @
     [1, 1, 1, 1, 1, 1, 1, 1, 1, 1, 1, 1, 1, 2, 2, 2] @
     [2, 2, 2, 2, 2, 2, 2, 2, 2, 2, 2, 2, 2, 2, 2, 2] @
     [2, 2, 2, 2, 2, 2, 2, 2, 2, 2, 2, 2, 2, 2, 2, 2] @
     [2, 2, 2, 2, 2, 2, 2, 2, 2, 2, 2, 2, 2, 2, 2, 2] @
     [3, 3, 3, 3, 3, 3, 3, 3, 3, 3, 3, 3, 3, 3, 3, 3] @
     [3, 3, 3, 3, 3, 3, 3, 3, 3, 3, 3, 3, 3, 3, 3, 3] @
     [3, 3, 3, 3, 3, 3, 3, 3, 3, 3, 3, 3, 3, 3, 3, 3] @
     [3, 3, 3, 4, 4, 4, 4, 4, 4, 4, 4, 4, 4, 4, 4, 4] @
     [4, 4, 4, 4, 4, 4, 4, 4, 4, 4, 4, 4, 4, 4, 4, 4] @
     [4, 4, 4, 4, 4, 4, 4, 4, 4, 4, 4, 4, 4, 4, 4, 4] @
     [4, 4, 4, 4, 4, 4, 5, 5, 5, 5, 5, 5, 5, 5, 5, 5] @
     [5, 5, 5, 5, 5, 5, 5, 5, 5, 5, 5, 5, 5, 5, 5, 5]"

record options =
  Workers :: int

text \<open>
  The two pixel loops of \<^verbatim>\<open>getColorMapper\<close> compute these indices; \<^verbatim>\<open>uint8(idx)\<close>
  is the conversion \<^term>\<open>word_of_int\<close>.
\<close>

definition index64 :: "u16 \<times> u16 \<times> u16 \<times> u16 \<Rightarrow> u8" where
  "index64 c = (case c of (r, g, b, a) \<Rightarrow>
     word_of_int (36 * FastGifLut ! unat (drop_bit 8 r) + 6 * FastGifLut ! unat (drop_bit 8 g)
                  + FastGifLut ! unat (drop_bit 8 b)))"

definition indexGeneric :: "color \<Rightarrow> u8" where
  "indexGeneric c = (case color_RGBA c of (r, g, b, a) \<Rightarrow>
     word_of_int (36 * FastGifLut ! unat (drop_bit 8 r AND 0xff)
                  + 6 * FastGifLut ! unat (drop_bit 8 g AND 0xff)
                  + FastGifLut ! unat (drop_bit 8 b AND 0xff)))"

definition getColorMapper ::
  "image \<Rightarrow> paletted \<Rightarrow> image \<Rightarrow> int \<Rightarrow> int \<Rightarrow> int \<Rightarrow> int \<Rightarrow> error + paletted" where
  "getColorMapper m =
     (case RGBA64At m of
        Some i64 \<Rightarrow> (\<lambda>pm _ minX maxX startY endY.
          foldM (\<lambda>y. foldM (\<lambda>x pm. SetColorIndex pm x y (index64 (i64 x y)))
                   [minX..maxX - 1]) [startY..endY - 1] pm)
      | None \<Rightarrow> (\<lambda>pm m minX maxX startY endY.
          foldM (\<lambda>y. foldM (\<lambda>x pm. SetColorIndex pm x y (indexGeneric (At m x y)))
                   [minX..maxX - 1]) [startY..endY - 1] pm))"

text \<open>
  The row ranges handed to the workers. \<^verbatim>\<open>mapColors\<close>, \<^verbatim>\<open>writeLZWData\<close> and
  \<^verbatim>\<open>writeParallelLZW\<close> each compute them with the same statements: the rows per
  worker by integer division, the clamp to one row per worker, and the last worker
  running to the end. \<open>stripPlan\<close> gives the rows per worker and the worker count
  after the clamp.
\<close>

definition stripPlan :: "int \<Rightarrow> int \<Rightarrow> int \<times> int" where
  "stripPlan height workers =
     (let rowsPerWorker = quo height workers
      in if rowsPerWorker < 1 then (1, height) else (rowsPerWorker, workers))"

definition rowRanges :: "int \<Rightarrow> int \<Rightarrow> int \<Rightarrow> (int \<times> int) list" where
  "rowRanges minY maxY workers =
     (case stripPlan (maxY - minY) workers of
        (rowsPerWorker, workers) \<Rightarrow>
          map (\<lambda>i. let startY = minY + i * rowsPerWorker;
                       endY = startY + rowsPerWorker
                   in (startY, if i = workers - 1 then maxY else endY))
              [0..workers - 1])"

text \<open>
  \<^verbatim>\<open>mapColors\<close> takes the height from \<^verbatim>\<open>b.Dy()\<close> and the rows from \<^verbatim>\<open>b.Min.Y\<close>
  and \<^verbatim>\<open>b.Max.Y\<close>. When \<open>Min.Y \<le> Max.Y\<close> and \<^verbatim>\<open>image.NewPaletted\<close> has accepted
  the rectangle, \<^verbatim>\<open>b.Dy()\<close> is the difference of the two (lemma \<open>Dy_span\<close>), the
  height \<open>rowRanges\<close> works with, and every row number lies between them. A rectangle with
  \<open>Min.Y > Max.Y\<close> holds no point: whichever rows the workers visit then,
  \<^verbatim>\<open>SetColorIndex\<close> returns at its bounds check, and the buffer stays as it was
  allocated; here there is no row to visit.
\<close>

definition mapColors :: "paletted \<Rightarrow> image \<Rightarrow> int \<Rightarrow> error + paletted" where
  "mapColors pm m workers =
     (let b = Bounds m in
      if workers = 0 then Inl Panic
      else let mapFunc = getColorMapper m
           in foldM (\<lambda>(sy, ey) pm.
                       mapFunc pm m (sint (px (rmin b))) (sint (px (rmax b))) sy ey)
                (rowRanges (sint (py (rmin b))) (sint (py (rmax b))) workers) pm)"

section \<open>The sub-block packetizer\<close>

text \<open>
  \<^verbatim>\<open>blockWriter\<close>: \<open>bw_w\<close> is what the underlying writer has received from it,
  \<open>bw_buf\<close> the 256-byte array and \<open>bw_n\<close> the number of buffered bytes. The slice
  \<^verbatim>\<open>b.buf[b.n+1:256]\<close> panics once \<open>b.n\<close> exceeds 255.
\<close>

record blockWriter =
  bw_w :: "u8 list"
  bw_buf :: "u8 list"
  bw_n :: nat

definition new_blockWriter :: blockWriter where
  "new_blockWriter = \<lparr>bw_w = [], bw_buf = replicate 256 0, bw_n = 0\<rparr>"

function blockWriter_Write :: "blockWriter \<Rightarrow> u8 list \<Rightarrow> error + blockWriter" where
  "blockWriter_Write b p =
     (if p = [] then Inr b
      else if 255 < bw_n b then Inl Panic
      else let k = min (255 - bw_n b) (length p);
               b1 = b\<lparr>bw_buf := copy_at (bw_buf b) (bw_n b + 1) 256 p, bw_n := bw_n b + k\<rparr>
           in if bw_n b1 = 255
              then let b2 = b1\<lparr>bw_buf := (bw_buf b1)[0 := 255]\<rparr>
                   in blockWriter_Write
                        (b2\<lparr>bw_w := bw_w b2 @ take 256 (bw_buf b2), bw_n := 0\<rparr>) (drop k p)
              else blockWriter_Write b1 (drop k p))"
  by pat_completeness auto
termination
  by (relation "measures [\<lambda>(b, p). length p, \<lambda>(b, p). if bw_n b = 255 then 1 else 0]")
     (auto simp: Let_def min_def split: if_splits)

declare blockWriter_Write.simps [simp del]

definition blockWriter_close :: "blockWriter \<Rightarrow> blockWriter" where
  "blockWriter_close b =
     (if 0 < bw_n b
      then let b1 = b\<lparr>bw_buf := (bw_buf b)[0 := of_nat (bw_n b)]\<rparr>
           in b1\<lparr>bw_w := bw_w b1 @ take (bw_n b1 + 1) (bw_buf b1)\<rparr>
      else b)"

section \<open>The LZW writer of compress/lzw, least significant bit first\<close>

text \<open>
  \<open>lz_w\<close> is the sequence of bytes the writer has passed to \<^verbatim>\<open>w.w.WriteByte\<close>.
  The open-addressing hash table of the writer (16384 slots, entries
  \<^verbatim>\<open>key<<12 | code\<close>, never more than 4095 of them) is the association list of the
  pairs (key, code) it holds; a key is inserted only after its lookup has failed.
\<close>

record lzw_Writer =
  lz_w :: "u8 list"
  lz_litWidth :: nat
  lz_bits :: u32
  lz_nBits :: nat
  lz_width :: nat
  lz_hi :: u32
  lz_overflow :: u32
  lz_savedCode :: u32
  lz_table :: "(u32 \<times> u32) list"

definition maxCode :: u32 where
  "maxCode = push_bit 12 1 - 1"

definition invalidCode :: u32 where
  "invalidCode = 0xffffffff"

definition lzw_NewWriter :: "int \<Rightarrow> error + lzw_Writer" where
  "lzw_NewWriter litWidth =
     (if litWidth < 2 \<or> 8 < litWidth then Inl LzwLitWidthOutOfRange
      else let lw = nat litWidth
           in Inr \<lparr>lz_w = [], lz_litWidth = lw, lz_bits = 0, lz_nBits = 0, lz_width = 1 + lw,
                    lz_hi = push_bit lw 1 + 1, lz_overflow = push_bit (lw + 1) 1,
                    lz_savedCode = invalidCode, lz_table = []\<rparr>)"

function lzw_emit :: "lzw_Writer \<Rightarrow> lzw_Writer" where
  \<comment> \<open>the \<^verbatim>\<open>for w.nBits >= 8\<close> loop of \<^verbatim>\<open>writeLSB\<close>\<close>
  "lzw_emit w =
     (if 8 \<le> lz_nBits w
      then lzw_emit (w\<lparr>lz_w := lz_w w @ [ucast (lz_bits w)],
                       lz_bits := drop_bit 8 (lz_bits w), lz_nBits := lz_nBits w - 8\<rparr>)
      else w)"
  by pat_completeness auto
termination
  by (relation "measure lz_nBits") auto

declare lzw_emit.simps [simp del]

definition writeLSB :: "lzw_Writer \<Rightarrow> u32 \<Rightarrow> lzw_Writer" where
  "writeLSB w c =
     lzw_emit (w\<lparr>lz_bits := lz_bits w OR push_bit (lz_nBits w) c,
                 lz_nBits := lz_nBits w + lz_width w\<rparr>)"

text \<open>\<^verbatim>\<open>incHi\<close>; the flag is \<^verbatim>\<open>errOutOfCodes\<close>.\<close>

definition incHi :: "lzw_Writer \<Rightarrow> lzw_Writer \<times> bool" where
  "incHi w0 =
     (let w1 = w0\<lparr>lz_hi := lz_hi w0 + 1\<rparr>;
          w2 = (if lz_hi w1 = lz_overflow w1
                then w1\<lparr>lz_width := lz_width w1 + 1, lz_overflow := push_bit 1 (lz_overflow w1)\<rparr>
                else w1)
      in if lz_hi w2 = maxCode
         then let clear = push_bit (lz_litWidth w2) 1;
                  w3 = writeLSB w2 clear
              in (w3\<lparr>lz_width := lz_litWidth w3 + 1, lz_hi := clear + 1,
                      lz_overflow := push_bit 1 clear, lz_table := []\<rparr>, True)
         else (w2, False))"

fun lzw_loop :: "lzw_Writer \<Rightarrow> u32 \<Rightarrow> u8 list \<Rightarrow> lzw_Writer \<times> u32" where
  "lzw_loop w code [] = (w, code)"
| "lzw_loop w code (x # p) =
     (let literal = ucast x;
          key = push_bit 8 code OR literal
      in case map_of (lz_table w) key of
           Some t \<Rightarrow> lzw_loop w t p
         | None \<Rightarrow>
             (case incHi (writeLSB w code) of
                (w1, outOfCodes) \<Rightarrow>
                  if outOfCodes then lzw_loop w1 literal p
                  else lzw_loop (w1\<lparr>lz_table := (key, lz_hi w1) # lz_table w1\<rparr>) literal p))"

definition lzw_Write :: "lzw_Writer \<Rightarrow> u8 list \<Rightarrow> error + lzw_Writer" where
  "lzw_Write w p =
     (if p = [] then Inr w
      else let maxLit = (push_bit (lz_litWidth w) 1 - 1 :: u8)
           in if maxLit \<noteq> 0xff \<and> list_ex (\<lambda>x. maxLit < x) p then Inl LzwInputTooLarge
              else case (if lz_savedCode w = invalidCode
                         then (writeLSB w (push_bit (lz_litWidth w) 1), ucast (hd p), tl p)
                         else (w, lz_savedCode w, p)) of
                     (w1, code, p1) \<Rightarrow>
                       (case lzw_loop w1 code p1 of
                          (w2, code2) \<Rightarrow> Inr (w2\<lparr>lz_savedCode := code2\<rparr>)))"

definition lzw_Close :: "lzw_Writer \<Rightarrow> lzw_Writer" where
  "lzw_Close w =
     (let w1 = (if lz_savedCode w \<noteq> invalidCode
                then fst (incHi (writeLSB w (lz_savedCode w)))
                else writeLSB w (push_bit (lz_litWidth w) 1));
          eof = push_bit (lz_litWidth w1) 1 + 1;
          w2 = writeLSB w1 eof
      in if 0 < lz_nBits w2 then w2\<lparr>lz_w := lz_w w2 @ [ucast (lz_bits w2)]\<rparr> else w2)"

text \<open>
  \<^verbatim>\<open>lzw.NewWriter\<close> wraps a destination without \<^verbatim>\<open>WriteByte\<close> in a
  \<^verbatim>\<open>bufio.Writer\<close> of 4096 bytes: the destination receives the bytes in writes of
  4096 bytes, and the rest at \<^verbatim>\<open>Flush\<close>.
\<close>

function bufio_writes :: "u8 list \<Rightarrow> u8 list list" where
  "bufio_writes bs = (if bs = [] then [] else take 4096 bs # bufio_writes (drop 4096 bs))"
  by pat_completeness auto
termination
  by (relation "measure length") auto

declare bufio_writes.simps [simp del]

text \<open>
  The statements both compressors share: a fresh \<^verbatim>\<open>blockWriter\<close>, an LZW writer
  on it, \<^verbatim>\<open>Write(data)\<close>, \<^verbatim>\<open>Close()\<close>, \<^verbatim>\<open>bw.close()\<close>. The result is what the
  \<^verbatim>\<open>blockWriter\<close> has passed on.
\<close>

definition bindE :: "error + 'a \<Rightarrow> ('a \<Rightarrow> error + 'b) \<Rightarrow> error + 'b" where
  "bindE r f = (case r of Inl e \<Rightarrow> Inl e | Inr v \<Rightarrow> f v)"

definition lzwBlocks :: "int \<Rightarrow> u8 list \<Rightarrow> error + u8 list" where
  "lzwBlocks litWidth data =
     bindE (lzw_NewWriter litWidth) (\<lambda>lzww.
     bindE (lzw_Write lzww data) (\<lambda>lzww.
     bindE (foldM (\<lambda>p b. blockWriter_Write b p) (bufio_writes (lz_w (lzw_Close lzww)))
              new_blockWriter) (\<lambda>bw.
     Inr (bw_w (blockWriter_close bw)))))"

section \<open>The parallel block compressor\<close>

fun mapM :: "('a \<Rightarrow> error + 'b) \<Rightarrow> 'a list \<Rightarrow> error + 'b list" where
  "mapM f [] = Inr []"
| "mapM f (x # xs) =
     (case f x of Inl e \<Rightarrow> Inl e
      | Inr y \<Rightarrow> (case mapM f xs of Inl e \<Rightarrow> Inl e | Inr ys \<Rightarrow> Inr (y # ys)))"

text \<open>
  One worker of \<^verbatim>\<open>writeParallelLZW\<close>: the rows \<open>sy \<le> y < ey\<close> copied into
  \<^verbatim>\<open>stripData\<close>, then compressed into a buffer of its own.
\<close>

definition compressStrip :: "paletted \<Rightarrow> int \<Rightarrow> int \<Rightarrow> int \<times> int \<Rightarrow> error + u8 list" where
  "compressStrip pm litWidth dx r = (case r of (sy, ey) \<Rightarrow>
     (let stripSize = (ey - sy) * dx in
      if stripSize < 0 then Inl Panic
      else bindE (foldM (\<lambda>y (stripData, offset).
                    bindE (sliceOf (Pix pm) (y * Stride pm) (y * Stride pm + dx)) (\<lambda>src.
                    bindE (copy_slice stripData offset (offset + dx) src) (\<lambda>stripData.
                    Inr (stripData, offset + dx))))
                  [sy..ey - 1] (replicate (nat stripSize) 0, 0))
             (\<lambda>(stripData, offset). lzwBlocks litWidth stripData)))"

text \<open>
  The chunks are written in strip order once all workers are done. When several
  workers fail, the Go code returns whichever failure arrives first; here it is the
  one of the lowest strip.
\<close>

definition writeParallelLZW :: "u8 list \<Rightarrow> paletted \<Rightarrow> int \<Rightarrow> int \<Rightarrow> error + u8 list" where
  "writeParallelLZW w pm litWidth workers =
     (let dx = Dx (Rect pm); dy = Dy (Rect pm) in
      if workers = 0 then Inl Panic
      else if snd (stripPlan dy workers) < 0 then Inl Panic
      else bindE (mapM (compressStrip pm litWidth dx) (rowRanges 0 dy workers)) (\<lambda>chunks.
           Inr (foldl (\<lambda>w data. w @ data) w chunks)))"

definition writeLZWData :: "u8 list \<Rightarrow> paletted \<Rightarrow> int \<Rightarrow> int \<Rightarrow> error + u8 list" where
  "writeLZWData w pm litWidth workers =
     (let b = Rect pm; dx = Dx b; dy = Dy b in
      if workers > 1 \<and> dy \<ge> wrap64 (workers * 4) then writeParallelLZW w pm litWidth workers
      else if workers = 0 then Inl Panic
      else if dx * dy < 0 then Inl Panic
      else bindE (foldM (\<lambda>(sy, ey). foldM (\<lambda>y imageData.
                      bindE (sliceOf (Pix pm) (y * Stride pm) (y * Stride pm + dx)) (\<lambda>src.
                      copy_slice imageData (y * dx) ((y + 1) * dx) src)) [sy..ey - 1])
                   (rowRanges 0 dy workers) (replicate (nat (dx * dy)) 0)) (\<lambda>imageData.
           bindE (lzwBlocks litWidth imageData) (\<lambda>blocks.
           Inr (w @ blocks))))"

section \<open>The container serializer\<close>

definition writeUint16 :: "u8 list \<Rightarrow> u16 \<Rightarrow> u8 list" where
  \<comment> \<open>\<^verbatim>\<open>binary.LittleEndian.PutUint16\<close>\<close>
  "writeUint16 w v = w @ [ucast v, ucast (drop_bit 8 v)]"

definition writeColorTable :: "u8 list \<Rightarrow> color list \<Rightarrow> int \<Rightarrow> u8 list" where
  "writeColorTable w p paddedSize =
     foldl (\<lambda>w i. w @ (if i < int (length p)
                        then (case nrgbaModel (p ! nat i) of (r, g, b, a) \<Rightarrow> [r, g, b])
                        else [0, 0, 0]))
       w [0..paddedSize - 1]"

definition log2 :: "int \<Rightarrow> int" where
  "log2 x = (case find (\<lambda>(i, v). x \<le> v) (zip [0..7] [2, 4, 8, 16, 32, 64, 128, 256]) of
               Some (i, v) \<Rightarrow> i | None \<Rightarrow> - 1)"

text \<open>
  \<^verbatim>\<open>for paddedSize < len(pm.Palette) && paddedSize < 256 { paddedSize <<= 1 }\<close>,
  entered with \<open>paddedSize = 1\<close>; the test \<open>0 < paddedSize\<close> is there for the
  termination proof only.
\<close>

function paddedSize_loop :: "int \<Rightarrow> int \<Rightarrow> int" where
  "paddedSize_loop paddedSize n =
     (if 0 < paddedSize \<and> paddedSize < n \<and> paddedSize < 256
      then paddedSize_loop (2 * paddedSize) n else paddedSize)"
  by pat_completeness auto
termination
  by (relation "measure (\<lambda>(p, n). nat (256 - p))") auto

declare paddedSize_loop.simps [simp del]

text \<open>\<^verbatim>\<open>for litWidth = 2; litWidth < 8 && 1<<uint(litWidth) < n; litWidth++ {}\<close>\<close>

function litWidth_loop :: "int \<Rightarrow> int \<Rightarrow> int" where
  "litWidth_loop litWidth n =
     (if litWidth < 8 \<and> 2 ^ nat litWidth < n then litWidth_loop (litWidth + 1) n else litWidth)"
  by pat_completeness auto
termination
  by (relation "measure (\<lambda>(l, n). nat (8 - l))") auto

declare litWidth_loop.simps [simp del]

text \<open>
  \<^verbatim>\<open>encodeGIF\<close>, in two parts. \<open>encodeGIF_head\<close> is its statements from
  \<^verbatim>\<open>bufio.NewWriter\<close> to \<^verbatim>\<open>bw.WriteByte(uint8(litWidth))\<close>: it gives what has
  been written through the \<^verbatim>\<open>bufio.Writer\<close> by then, and \<open>litWidth\<close>.

  In \<open>encodeGIF\<close>, \<open>w\<close> is what the sink holds on entry and the result carries what
  it holds on return. What is written through the \<^verbatim>\<open>bufio.Writer\<close> reaches the sink
  at \<^verbatim>\<open>Flush\<close>; the return on a failed \<^verbatim>\<open>writeLZWData\<close> happens with the header
  alone (at most 792 bytes) in its 4096-byte buffer, so the sink is as it was.
\<close>

definition encodeGIF_head :: "paletted \<Rightarrow> u8 list \<times> int" where
  "encodeGIF_head pm =
     (let b = Rect pm;
          bw = map (of_nat \<circ> of_char) ''GIF89a'';
          bw = writeUint16 bw (word_of_int (Dx b));
          bw = writeUint16 bw (word_of_int (Dy b));
          paddedSize = paddedSize_loop 1 (int (length (Palette pm)));
          bw = bw @ [0x80 OR word_of_int (log2 paddedSize)];
          bw = bw @ [0x00];
          bw = bw @ [0x00];
          bw = writeColorTable bw (Palette pm) paddedSize;
          bw = bw @ [0x2C];
          bw = writeUint16 bw 0;
          bw = writeUint16 bw 0;
          bw = writeUint16 bw (word_of_int (Dx b));
          bw = writeUint16 bw (word_of_int (Dy b));
          bw = bw @ [0x00];
          n = int (length (Palette pm));
          litWidth = (if n > 0 then litWidth_loop 2 n else 8);
          bw = bw @ [word_of_int litWidth]
      in (bw, litWidth))"

definition encodeGIF :: "u8 list \<Rightarrow> paletted \<Rightarrow> int \<Rightarrow> error option \<times> u8 list" where
  "encodeGIF w pm workers =
     (if length (Palette pm) = 0 then (Some EmptyPalette, w)
      else case encodeGIF_head pm of
             (bw, litWidth) \<Rightarrow>
               (case writeLZWData bw pm litWidth workers of
                  Inl err \<Rightarrow> (Some err, w)
                | Inr bw \<Rightarrow> (None, w @ (bw @ [0x00] @ [0x3B]))))"

text \<open>
  \<^verbatim>\<open>Encode\<close>; \<open>numCPU\<close> is \<^verbatim>\<open>runtime.NumCPU()\<close> and \<open>opts\<close> the possibly nil
  \<^verbatim>\<open>*Options\<close>.
\<close>

definition Encode :: "int \<Rightarrow> u8 list \<Rightarrow> image \<Rightarrow> options option \<Rightarrow> error option \<times> u8 list" where
  "Encode numCPU w m opts =
     (let workers = (case opts of
                       Some o' \<Rightarrow> if Workers o' > 0 then Workers o' else numCPU
                     | None \<Rightarrow> numCPU);
          b = Bounds m
      in if Dx b \<ge> 2 ^ 16 \<or> Dy b \<ge> 2 ^ 16 then (Some ImageTooLarge, w)
         else case NewPaletted b WebSafe of
                Inl err \<Rightarrow> (Some err, w)
              | Inr pm \<Rightarrow>
                 (case mapColors pm m workers of
                    Inl err \<Rightarrow> (Some err, w)
                  | Inr pm \<Rightarrow>
                      let pm = (if rmin (Rect pm) \<noteq> \<lparr>px = 0, py = 0\<rparr>
                                then pm\<lparr>Rect := rectangle_Sub (Rect pm) (rmin (Rect pm))\<rparr>
                                else pm)
                      in encodeGIF w pm workers))"

section \<open>Reference notions the properties are stated with\<close>

text \<open>
  The framing of a byte stream into data sub-blocks, in the words of the container
  format: blocks of 255 bytes while 255 bytes are left, then one shorter block for
  what remains, if anything does.
\<close>

function full_blocks :: "u8 list \<Rightarrow> u8 list" where
  "full_blocks d = (if length d < 255 then [] else 255 # take 255 d @ full_blocks (drop 255 d))"
  by pat_completeness auto
termination
  by (relation "measure length") auto

declare full_blocks.simps [simp del]

definition tail_bytes :: "u8 list \<Rightarrow> u8 list" where
  "tail_bytes d = drop (255 * (length d div 255)) d"

definition sub_blocks :: "u8 list \<Rightarrow> u8 list" where
  "sub_blocks d = full_blocks d @
     (if length d mod 255 = 0 then [] else of_nat (length d mod 255) # tail_bytes d)"

text \<open>
  Reading a sequence of sub-blocks back: every block is a length byte between 1 and
  255 followed by that many bytes; anything else is rejected.
\<close>

function deframe :: "u8 list \<Rightarrow> u8 list option" where
  "deframe [] = Some []"
| "deframe (l # rest) =
     (if l = 0 \<or> length rest < unat l then None
      else map_option ((@) (take (unat l) rest)) (deframe (drop (unat l) rest)))"
  by pat_completeness auto
termination
  by (relation "measure length") auto

declare deframe.simps [simp del]

text \<open>The bytes a packetizer holds back: \<^verbatim>\<open>b.buf[1 : b.n+1]\<close>.\<close>

definition pending :: "blockWriter \<Rightarrow> u8 list" where
  "pending b = take (bw_n b) (drop 1 (bw_buf b))"

text \<open>
  Rows per worker and worker count for a non-negative height and at least one worker:
  the quotient rounded down, and one row for each of \<open>h\<close> workers when \<open>h < workers\<close>.
\<close>

definition rowsPer :: "int \<Rightarrow> int \<Rightarrow> int" where
  "rowsPer h workers = (if h < workers then 1 else h div workers)"

definition effWorkers :: "int \<Rightarrow> int \<Rightarrow> int" where
  "effWorkers h workers = (if h < workers then h else workers)"

text \<open>The rows-per-worker figure of the specification text.\<close>

definition ceil_div :: "int \<Rightarrow> int \<Rightarrow> int" where
  "ceil_div h n = (h + n - 1) div n"

text \<open>
  A decoder for the variable-width LZW code stream of GIF89a (appendix F), least
  significant bit first, as \<^verbatim>\<open>compress/lzw\<close>'s reader and other decoders of the format
  read it: codes of \<open>litWidth + 1\<close> bits at first, one bit more whenever the next free
  code reaches the current limit, up to 12 bits; the clear code resets the table; the
  end-of-information code ends the image data, whatever follows it.
\<close>

record lzw_Reader =
  rd_width :: nat
  rd_hi :: nat
  rd_overflow :: nat
  rd_last :: "nat option"
  rd_table :: "(nat \<times> u8 list) list"

definition new_lzw_Reader :: "nat \<Rightarrow> lzw_Reader" where
  "new_lzw_Reader litWidth =
     \<lparr>rd_width = 1 + litWidth, rd_hi = 2 ^ litWidth + 1, rd_overflow = 2 ^ (1 + litWidth),
      rd_last = None, rd_table = []\<rparr>"

definition bits_of_bytes :: "u8 list \<Rightarrow> bool list" where
  "bits_of_bytes bs = concat (map (\<lambda>b. map (bit b) [0..<8]) bs)"

fun nat_of_bits :: "bool list \<Rightarrow> nat" where
  "nat_of_bits [] = 0"
| "nat_of_bits (b # bs) = (if b then 1 else 0) + 2 * nat_of_bits bs"

definition code_string :: "nat \<Rightarrow> lzw_Reader \<Rightarrow> nat \<Rightarrow> u8 list option" where
  "code_string clear r c = (if c < clear then Some [of_nat c] else map_of (rd_table r) c)"

definition code_expansion :: "nat \<Rightarrow> lzw_Reader \<Rightarrow> nat \<Rightarrow> u8 list option" where
  "code_expansion clear r c =
     (if c < clear then Some [of_nat c]
      else if rd_hi r < c then None
      else if c = rd_hi r \<and> rd_last r \<noteq> None
      then (case code_string clear r (the (rd_last r)) of
              None \<Rightarrow> None | Some s \<Rightarrow> Some (s @ [hd s]))
      else map_of (rd_table r) c)"

definition reader_advance :: "nat \<Rightarrow> lzw_Reader \<Rightarrow> nat \<Rightarrow> u8 list \<Rightarrow> lzw_Reader" where
  "reader_advance clear r c e =
     (let tbl = (case rd_last r of
                   None \<Rightarrow> rd_table r
                 | Some l \<Rightarrow> (case code_string clear r l of
                                None \<Rightarrow> rd_table r
                              | Some s \<Rightarrow> (rd_hi r, s @ [hd e]) # rd_table r));
          r1 = r\<lparr>rd_table := tbl, rd_last := Some c, rd_hi := rd_hi r + 1\<rparr>
      in if rd_overflow r1 \<le> rd_hi r1
         then (if rd_width r1 = 12 then r1\<lparr>rd_last := None, rd_hi := rd_hi r1 - 1\<rparr>
               else r1\<lparr>rd_width := rd_width r1 + 1, rd_overflow := 2 ^ (rd_width r1 + 1)\<rparr>)
         else r1)"

function lzw_decode_loop :: "nat \<Rightarrow> lzw_Reader \<Rightarrow> bool list \<Rightarrow> u8 list" where
  "lzw_decode_loop litWidth r bits =
     (if rd_width r = 0 \<or> length bits < rd_width r then []
      else let c = nat_of_bits (take (rd_width r) bits);
               rest = drop (rd_width r) bits
           in if c = 2 ^ litWidth then lzw_decode_loop litWidth (new_lzw_Reader litWidth) rest
              else if c = 2 ^ litWidth + 1 then []
              else (case code_expansion (2 ^ litWidth) r c of
                      None \<Rightarrow> []
                    | Some e \<Rightarrow>
                        e @ lzw_decode_loop litWidth (reader_advance (2 ^ litWidth) r c e) rest))"
  by pat_completeness auto
termination
  by (relation "measure (\<lambda>(l, r, bits). length bits)") auto

declare lzw_decode_loop.simps [simp del]

text \<open>
  What a decoder recovers from the image data of a frame: the sub-blocks are
  concatenated and the code stream is read up to its end-of-information code.
\<close>

definition gif_decode_data :: "nat \<Rightarrow> u8 list \<Rightarrow> u8 list option" where
  "gif_decode_data litWidth blocks =
     map_option (\<lambda>d. lzw_decode_loop litWidth (new_lzw_Reader litWidth) (bits_of_bytes d))
       (deframe blocks)"

text \<open>
  Reading the index buffer: \<^verbatim>\<open>Paletted.ColorIndexAt\<close>. The buffers met here
  have the shape \<^verbatim>\<open>image.NewPaletted\<close> gives them, in which every point of the
  rectangle has its own offset inside \<open>Pix\<close>.
\<close>

definition ColorIndexAt :: "paletted \<Rightarrow> int \<Rightarrow> int \<Rightarrow> u8" where
  "ColorIndexAt p x y =
     (if \<not> point_In x y (Rect p) then 0 else Pix p ! nat (PixOffset p x y))"

definition wf_paletted :: "paletted \<Rightarrow> bool" where
  "wf_paletted pm \<longleftrightarrow>
     Stride pm = Dx (Rect pm) \<and> 0 \<le> Dx (Rect pm) \<and> 0 \<le> Dy (Rect pm) \<and>
     int (length (Pix pm)) = Dx (Rect pm) * Dy (Rect pm)"

text \<open>Two index buffers that differ in their pixels at most.\<close>

definition same_shape :: "paletted \<Rightarrow> paletted \<Rightarrow> bool" where
  "same_shape p q \<longleftrightarrow> Rect p = Rect q \<and> Stride p = Stride q \<and> Palette p = Palette q \<and>
     length (Pix p) = length (Pix q)"

text \<open>
  The level of an 8-bit channel value, the high byte of a 16-bit sample, and the palette
  index the quantizer computes for the pixel \<open>(x, y)\<close> of a source, on whichever of
  the two access paths \<^verbatim>\<open>getColorMapper\<close> selects.
\<close>

definition level :: "u8 \<Rightarrow> int" where
  "level v = FastGifLut ! unat v"

definition high_byte :: "u16 \<Rightarrow> u8" where
  "high_byte v = ucast (drop_bit 8 v)"

definition pixelIndex :: "image \<Rightarrow> int \<Rightarrow> int \<Rightarrow> u8" where
  "pixelIndex m x y =
     (case RGBA64At m of Some i64 \<Rightarrow> index64 (i64 x y) | None \<Rightarrow> indexGeneric (At m x y))"

text \<open>The rows \<open>sy \<le> y < ey\<close> of an index buffer of that shape, as one sequence.\<close>

definition strip_of :: "paletted \<Rightarrow> int \<times> int \<Rightarrow> u8 list" where
  "strip_of pm r = (case r of (sy, ey) \<Rightarrow>
     take (nat (ey - sy) * nat (Dx (Rect pm))) (drop (nat sy * nat (Dx (Rect pm))) (Pix pm)))"

text \<open>
  The worker count \<^verbatim>\<open>Encode\<close> settles on, the index buffer it builds for that
  count, and the translation of the buffer's rectangle to the origin.
\<close>

definition workersOf :: "int \<Rightarrow> options option \<Rightarrow> int" where
  "workersOf numCPU opts =
     (case opts of Some o' \<Rightarrow> if Workers o' > 0 then Workers o' else numCPU | None \<Rightarrow> numCPU)"

text \<open>
  The test by which \<^verbatim>\<open>writeLZWData\<close> hands over to \<^verbatim>\<open>writeParallelLZW\<close>:
  \<^verbatim>\<open>workers > 1 && dy >= workers*4\<close>, the product in 64 bits.
\<close>

definition takesParallel :: "int \<Rightarrow> int \<Rightarrow> bool" where
  "takesParallel workers dy \<longleftrightarrow> workers > 1 \<and> dy \<ge> wrap64 (workers * 4)"

definition indexBuffer :: "image \<Rightarrow> int \<Rightarrow> error + paletted" where
  "indexBuffer m workers =
     bindE (NewPaletted (Bounds m) WebSafe) (\<lambda>pm. mapColors pm m workers)"

definition atOrigin :: "paletted \<Rightarrow> paletted" where
  "atOrigin pm =
     (if rmin (Rect pm) \<noteq> \<lparr>px = 0, py = 0\<rparr>
      then pm\<lparr>Rect := rectangle_Sub (Rect pm) (rmin (Rect pm))\<rparr> else pm)"

text \<open>
  The minimum code size and the padded palette size in the words of the format
  description: the smallest value from 2 to 7 whose power of two reaches the palette
  length, else 8; the smallest power of two that reaches the palette length, at most 256.
\<close>

definition minCodeSize :: "nat \<Rightarrow> nat" where
  "minCodeSize n = (case find (\<lambda>v. n \<le> 2 ^ v) [2..<8] of Some v \<Rightarrow> v | None \<Rightarrow> 8)"

definition paddedPaletteSize :: "nat \<Rightarrow> nat" where
  "paddedPaletteSize n = (case find (\<lambda>k. n \<le> 2 ^ k) [0..<8] of Some k \<Rightarrow> 2 ^ k | None \<Rightarrow> 256)"

text \<open>Entry \<open>i\<close> of the colour table written for a palette: three bytes.\<close>

definition table_entry :: "color list \<Rightarrow> nat \<Rightarrow> u8 list" where
  "table_entry p i =
     (if i < length p then (case nrgbaModel (p ! i) of (r, g, b, a) \<Rightarrow> [r, g, b])
      else [0, 0, 0])"

text \<open>The pixel sequence of an index buffer, row by row.\<close>

definition rowMajor :: "paletted \<Rightarrow> u8 list" where
  "rowMajor pm =
     concat (map (\<lambda>y. take (nat (Dx (Rect pm))) (drop (nat (y * Stride pm)) (Pix pm)))
               [0..Dy (Rect pm) - 1])"


section \<open>Concrete inputs\<close>

definition rect :: "int64 \<Rightarrow> int64 \<Rightarrow> int64 \<Rightarrow> int64 \<Rightarrow> rectangle" where
  "rect x0 y0 x1 y1 = \<lparr>rmin = \<lparr>px = x0, py = y0\<rparr>, rmax = \<lparr>px = x1, py = y1\<rparr>\<rparr>"

text \<open>Images of one colour: pure red, and black.\<close>

definition red_image :: "rectangle \<Rightarrow> image" where
  "red_image r = \<lparr>Bounds = r, At = (\<lambda>x y. RGBA 255 0 0 255), RGBA64At = None\<rparr>"

definition black_image :: "rectangle \<Rightarrow> image" where
  "black_image r = \<lparr>Bounds = r, At = (\<lambda>x y. RGBA 0 0 0 255), RGBA64At = None\<rparr>"

text \<open>An index buffer of one column and eight rows holding the indices 1 to 8.\<close>

definition column8 :: paletted where
  "column8 = \<lparr>Pix = [1, 2, 3, 4, 5, 6, 7, 8], Stride = 1, Rect = rect 0 0 1 8,
               Palette = WebSafe\<rparr>"

text \<open>Index buffers without pixels: with three colours, and with no colour at all.\<close>

definition empty3 :: paletted where
  "empty3 = \<lparr>Pix = [], Stride = 0, Rect = rect 0 0 0 0,
              Palette = [RGBA 255 0 0 255, RGBA 0 255 0 255, RGBA 0 0 255 255]\<rparr>"

definition empty3_gif :: "u8 list" where
  "empty3_gif =
     [71, 73, 70, 56, 57, 97, 0, 0, 0, 0, 129, 0, 0, 255, 0, 0, 0, 255, 0, 0, 0, 255, 0, 0, 0,
      44, 0, 0, 0, 0, 0, 0, 0, 0, 0, 2, 1, 44, 0, 59]"

definition empty0 :: paletted where
  "empty0 = \<lparr>Pix = [], Stride = 0, Rect = rect 0 0 0 0, Palette = []\<rparr>"

section \<open>Sides of a rectangle in 64 bits\<close>

lemma sint_range64: "- (2 ^ 63) \<le> sint (a :: int64)" "sint (a :: int64) < 2 ^ 63"
  using sint_ge [of a] sint_lt [of a] by simp_all

lemma sint_sub: "sint (b - a :: int64) = wrap64 (sint b - sint a)"
  by (simp add: wrap64_def sint_word_ariths signed_take_bit_eq_take_bit_shift take_bit_eq_mod)

lemma wrap64_id: "- (2 ^ 63) \<le> v \<Longrightarrow> v < 2 ^ 63 \<Longrightarrow> wrap64 v = v"
proof -
  assume "- (2 ^ 63) \<le> v" "v < 2 ^ 63"
  then have "(v + 2 ^ 63) mod 2 ^ 64 = v + 2 ^ 63"
    by (intro mod_pos_pos_trivial) simp_all
  then show ?thesis by (simp add: wrap64_def)
qed

lemma wrap64_high: "2 ^ 63 \<le> v \<Longrightarrow> v < 2 ^ 64 \<Longrightarrow> wrap64 v = v - 2 ^ 64"
proof -
  assume v: "2 ^ 63 \<le> v" "v < 2 ^ 64"
  have "(v + 2 ^ 63) mod 2 ^ 64 = (v + 2 ^ 63 - 2 ^ 64) mod 2 ^ 64"
    by (rule minus_mod_self2 [symmetric])
  also have "\<dots> = v + 2 ^ 63 - 2 ^ 64"
    using v by (intro mod_pos_pos_trivial) simp_all
  finally show ?thesis by (simp add: wrap64_def)
qed

text \<open>
  A side that is not negative is the difference of its two coordinates whenever the
  lower one is not above the upper one.
\<close>

lemma sint_diff:
  assumes "sint a \<le> sint b" "0 \<le> sint (b - a :: int64)"
  shows "sint (b - a) = sint b - sint a"
proof (cases "sint b - sint a < 2 ^ 63")
  case True
  then show ?thesis
    using assms(1) by (simp add: sint_sub wrap64_id)
next
  case False
  have "sint b - sint a < 2 ^ 64"
    using sint_range64 [of a] sint_range64 [of b] by simp
  then have "sint (b - a) < 0"
    using False by (simp add: sint_sub wrap64_high)
  then show ?thesis using assms(2) by simp
qed

lemma Dx_span:
  "sint (px (rmin r)) \<le> sint (px (rmax r)) \<Longrightarrow> 0 \<le> Dx r \<Longrightarrow>
   Dx r = sint (px (rmax r)) - sint (px (rmin r))"
  unfolding Dx_def by (rule sint_diff)

lemma Dy_span:
  "sint (py (rmin r)) \<le> sint (py (rmax r)) \<Longrightarrow> 0 \<le> Dy r \<Longrightarrow>
   Dy r = sint (py (rmax r)) - sint (py (rmin r))"
  unfolding Dy_def by (rule sint_diff)

section \<open>The sub-block packetizer frames its input\<close>

lemma full_blocks_short: "length d < 255 \<Longrightarrow> full_blocks d = []"
  by (subst full_blocks.simps) simp

lemma full_blocks_exact:
  "length a = 255 \<Longrightarrow> full_blocks (a @ d) = 255 # a @ full_blocks d"
  by (subst full_blocks.simps) simp

lemma tail_bytes_short: "length d < 255 \<Longrightarrow> tail_bytes d = d"
  by (simp add: tail_bytes_def)

lemma tail_bytes_exact: "length a = 255 \<Longrightarrow> tail_bytes (a @ d) = tail_bytes d"
proof -
  assume a: "length a = 255"
  have "(255 + length d) div 255 = Suc (length d div 255)" by simp
  then show ?thesis using a by (simp add: tail_bytes_def)
qed

lemma pending_copy:
  assumes "length buf = 256" "n + k \<le> 255" "k \<le> length p"
  shows "take (n + k) (drop 1 (take (n + 1) buf @ take k p @ drop (n + 1 + k) buf))
         = take n (drop 1 buf) @ take k p"
  using assms by (cases buf) (auto simp: min_def take_Cons' drop_Cons')

lemma blockWriter_Write_Nil [simp]: "blockWriter_Write b [] = Inr b"
  by (subst blockWriter_Write.simps) simp

lemma blockWriter_Write_step:
  "length (bw_buf b) = 256 \<Longrightarrow> bw_n b < 255 \<Longrightarrow>
   \<exists>b'. blockWriter_Write b p = Inr b' \<and> length (bw_buf b') = 256 \<and> bw_n b' < 255 \<and>
        bw_w b' = bw_w b @ full_blocks (pending b @ p) \<and>
        pending b' = tail_bytes (pending b @ p)"
proof (induction b p rule: blockWriter_Write.induct)
  case (1 b p)
  show ?case
  proof (cases "p = []")
    case True
    with "1.prems" show ?thesis
      by (simp add: pending_def full_blocks_short tail_bytes_short)
  next
    case False
    define k where "k = min (255 - bw_n b) (length p)"
    define b1 where
      "b1 = b\<lparr>bw_buf := copy_at (bw_buf b) (bw_n b + 1) 256 p, bw_n := bw_n b + k\<rparr>"
    have k: "bw_n b + k \<le> 255" "k \<le> length p" using "1.prems" by (auto simp: k_def)
    have not_gt: "\<not> 255 < bw_n b" using "1.prems" by simp
    have len1: "length (bw_buf b1) = 256"
      using "1.prems" k by (auto simp: b1_def copy_at_def k_def min_def)
    have pend1: "pending b1 = pending b @ take k p"
      using pending_copy [OF "1.prems"(1) k]
      by (simp add: pending_def b1_def copy_at_def k_def [symmetric])
    have lenp: "length (pending b) = bw_n b"
      using "1.prems" by (simp add: pending_def)
    show ?thesis
    proof (cases "bw_n b1 = 255")
      case True
      define b3 where "b3 = b1\<lparr>bw_buf := (bw_buf b1)[0 := 255],
          bw_w := bw_w b1 @ take 256 ((bw_buf b1)[0 := 255]), bw_n := 0\<rparr>"
      have unf: "blockWriter_Write b p = blockWriter_Write b3 (drop k p)"
        using False "1.prems" True [unfolded b1_def k_def]
        by (subst blockWriter_Write.simps) (simp add: Let_def b3_def b1_def k_def)
      have full: "length (pending b @ take k p) = 255"
        using True lenp k by (simp add: b1_def)
      have blk: "take 256 ((bw_buf b1)[0 := 255]) = 255 # (pending b @ take k p)"
      proof -
        have "take 256 ((bw_buf b1)[0 := 255]) = 255 # drop 1 (bw_buf b1)"
          using len1 by (cases "bw_buf b1") auto
        moreover have "drop 1 (bw_buf b1) = pending b1"
          using len1 True by (simp add: pending_def)
        ultimately show ?thesis using pend1 by simp
      qed
      have "\<exists>b'. blockWriter_Write b3 (drop k p) = Inr b' \<and> length (bw_buf b') = 256 \<and>
              bw_n b' < 255 \<and> bw_w b' = bw_w b3 @ full_blocks (pending b3 @ drop k p) \<and>
              pending b' = tail_bytes (pending b3 @ drop k p)"
        using "1.IH"(1) [OF False not_gt k_def b1_def True refl] len1
        by (simp add: b3_def)
      then obtain b' where IH: "blockWriter_Write b3 (drop k p) = Inr b'"
          "length (bw_buf b') = 256" "bw_n b' < 255"
          "bw_w b' = bw_w b3 @ full_blocks (pending b3 @ drop k p)"
          "pending b' = tail_bytes (pending b3 @ drop k p)"
        by blast
      have p3: "pending b3 = []" by (simp add: pending_def b3_def)
      have w3: "bw_w b3 = bw_w b @ 255 # (pending b @ take k p)"
        using blk by (simp add: b3_def b1_def)
      have split: "pending b @ p = (pending b @ take k p) @ drop k p" by simp
      have "bw_w b' = bw_w b @ full_blocks (pending b @ p)"
        using IH(4) p3 w3
        by (simp only: split full_blocks_exact [OF full]) simp
      moreover have "pending b' = tail_bytes (pending b @ p)"
        using IH(5) p3
        by (simp only: split tail_bytes_exact [OF full]) simp
      ultimately show ?thesis
        unfolding unf using IH(1-3) by simp
    next
      case neq: False
      have kp: "k = length p" "bw_n b + length p < 255"
        using neq k "1.prems" by (auto simp: b1_def k_def min_def split: if_splits)
      have unf: "blockWriter_Write b p = Inr b1"
        using False "1.prems" neq [unfolded b1_def k_def] kp [unfolded k_def]
        by (subst blockWriter_Write.simps) (simp add: Let_def b1_def k_def)
      show ?thesis
        unfolding unf using len1 pend1 kp lenp
        by (simp add: full_blocks_short tail_bytes_short b1_def)
    qed
  qed
qed

lemma length_tail_bytes: "length (tail_bytes d) = length d mod 255"
  by (simp add: tail_bytes_def minus_mult_div_eq_mod mult.commute)

lemma tail_bytes_long: "255 \<le> length d \<Longrightarrow> tail_bytes d = tail_bytes (drop 255 d)"
  using tail_bytes_exact [of "take 255 d" "drop 255 d"] by simp

lemma full_blocks_long:
  "255 \<le> length d \<Longrightarrow> full_blocks (d @ q) = 255 # take 255 d @ full_blocks (drop 255 d @ q)"
  by (subst full_blocks.simps) simp

lemma full_blocks_append:
  "full_blocks (d @ q) = full_blocks d @ full_blocks (tail_bytes d @ q)"
proof (induction d rule: full_blocks.induct)
  case (1 d)
  show ?case
  proof (cases "length d < 255")
    case True
    then show ?thesis by (simp add: full_blocks_short tail_bytes_short)
  next
    case False
    then have long: "255 \<le> length d" by simp
    show ?thesis
      using "1.IH" [OF False] full_blocks_long [OF long, of q] full_blocks_long [OF long, of "[]"]
      by (simp add: tail_bytes_long [OF long])
  qed
qed

lemma tail_bytes_append: "tail_bytes (tail_bytes d @ q) = tail_bytes (d @ q)"
proof (induction d rule: full_blocks.induct)
  case (1 d)
  show ?case
  proof (cases "length d < 255")
    case True
    then show ?thesis by (simp add: tail_bytes_short)
  next
    case False
    then have long: "255 \<le> length d" by simp
    have "tail_bytes (d @ q) = tail_bytes (drop 255 d @ q)"
      using tail_bytes_long [of "d @ q"] long by simp
    then show ?thesis
      using "1.IH" [OF False] by (simp add: tail_bytes_long [OF long])
  qed
qed

lemma blockWriter_writes:
  "length (bw_buf b) = 256 \<Longrightarrow> bw_n b < 255 \<Longrightarrow>
   \<exists>b'. foldM (\<lambda>p b. blockWriter_Write b p) ps b = Inr b' \<and>
        length (bw_buf b') = 256 \<and> bw_n b' < 255 \<and>
        bw_w b' = bw_w b @ full_blocks (pending b @ concat ps) \<and>
        pending b' = tail_bytes (pending b @ concat ps)"
proof (induction ps arbitrary: b)
  case Nil
  then show ?case
    by (simp add: full_blocks_short tail_bytes_short pending_def)
next
  case (Cons p ps)
  obtain b1 where st: "blockWriter_Write b p = Inr b1" "length (bw_buf b1) = 256"
      "bw_n b1 < 255" "bw_w b1 = bw_w b @ full_blocks (pending b @ p)"
      "pending b1 = tail_bytes (pending b @ p)"
    using blockWriter_Write_step [OF Cons.prems, of p] by blast
  obtain b' where IH: "foldM (\<lambda>p b. blockWriter_Write b p) ps b1 = Inr b'"
      "length (bw_buf b') = 256" "bw_n b' < 255"
      "bw_w b' = bw_w b1 @ full_blocks (pending b1 @ concat ps)"
      "pending b' = tail_bytes (pending b1 @ concat ps)"
    using Cons.IH [OF st(2,3)] by blast
  have "full_blocks (pending b @ p @ concat ps)
        = full_blocks (pending b @ p) @ full_blocks (tail_bytes (pending b @ p) @ concat ps)"
    using full_blocks_append [of "pending b @ p" "concat ps"] by simp
  moreover have "tail_bytes (tail_bytes (pending b @ p) @ concat ps)
        = tail_bytes (pending b @ p @ concat ps)"
    using tail_bytes_append [of "pending b @ p" "concat ps"] by simp
  ultimately show ?case
    using st IH by simp
qed

lemma new_blockWriter_inv:
  "length (bw_buf new_blockWriter) = 256" "bw_n new_blockWriter < 255"
  "pending new_blockWriter = []" "bw_w new_blockWriter = []"
  by (simp_all add: new_blockWriter_def pending_def)

lemma blockWriter_close_out:
  assumes "length (bw_buf b) = 256" "bw_n b < 255"
  shows "bw_w (blockWriter_close b)
         = bw_w b @ (if bw_n b = 0 then [] else of_nat (bw_n b) # pending b)"
  using assms
  by (cases "bw_buf b") (auto simp: blockWriter_close_def pending_def Let_def)

lemma blockWriter_session:
  "\<exists>b. foldM (\<lambda>p b. blockWriter_Write b p) ps new_blockWriter = Inr b \<and>
       bw_w b = full_blocks (concat ps) \<and> bw_n b = length (concat ps) mod 255 \<and>
       bw_w (blockWriter_close b) = sub_blocks (concat ps)"
proof -
  obtain b where w: "foldM (\<lambda>p b. blockWriter_Write b p) ps new_blockWriter = Inr b"
      "length (bw_buf b) = 256" "bw_n b < 255"
      "bw_w b = bw_w new_blockWriter @ full_blocks (pending new_blockWriter @ concat ps)"
      "pending b = tail_bytes (pending new_blockWriter @ concat ps)"
    using blockWriter_writes [OF new_blockWriter_inv(1,2), of ps] by blast
  have out: "bw_w b = full_blocks (concat ps)"
    using w(4) by (simp add: new_blockWriter_inv)
  have pend: "pending b = tail_bytes (concat ps)"
    using w(5) by (simp add: new_blockWriter_inv)
  have "length (pending b) = bw_n b"
    using w(2,3) by (simp add: pending_def)
  then have n: "bw_n b = length (concat ps) mod 255"
    using pend by (simp add: length_tail_bytes)
  have cl: "bw_w (blockWriter_close b) = sub_blocks (concat ps)"
    using blockWriter_close_out [OF w(2,3)] out pend n
    by (simp add: sub_blocks_def)
  show ?thesis using w(1) out n cl by blast
qed

lemma deframe_block:
  fixes a :: "u8 list"
  assumes "0 < length a" "length a \<le> 255"
  shows "deframe (of_nat (length a) # a @ r) = map_option ((@) a) (deframe r)"
proof -
  have u: "unat (of_nat (length a) :: u8) = length a"
    using assms by (simp add: unat_of_nat)
  have nz: "(of_nat (length a) :: u8) \<noteq> 0"
    using u assms by (metis less_numeral_extra(3) unat_0)
  show ?thesis using u nz by (simp add: deframe.simps)
qed

lemma deframe_full_blocks:
  "deframe (full_blocks d @ r) = map_option ((@) (take (255 * (length d div 255)) d)) (deframe r)"
proof (induction d rule: full_blocks.induct)
  case (1 d)
  show ?case
  proof (cases "length d < 255")
    case True
    then show ?thesis by (simp add: full_blocks_short option.map_ident)
  next
    case False
    then have long: "255 \<le> length d" by simp
    have fb: "full_blocks d = 255 # take 255 d @ full_blocks (drop 255 d)"
      using full_blocks_long [OF long, of "[]"] by simp
    have l: "length (take 255 d) = 255" using long by simp
    have "deframe (of_nat (length (take 255 d)) # take 255 d @ (full_blocks (drop 255 d) @ r))
       = map_option ((@) (take 255 d)) (deframe (full_blocks (drop 255 d) @ r))"
      by (rule deframe_block) (use long in auto)
    then have blk: "deframe (255 # take 255 d @ full_blocks (drop 255 d) @ r)
       = map_option ((@) (take 255 d)) (deframe (full_blocks (drop 255 d) @ r))"
      unfolding l by simp
    have dv: "length d div 255 = Suc ((length d - 255) div 255)"
      using long by (simp add: le_div_geq)
    have tk: "take (255 * (length d div 255)) d
        = take 255 d @ take (255 * ((length d - 255) div 255)) (drop 255 d)"
      unfolding dv by (simp add: take_add [symmetric] del: take_add)
    show ?thesis
      using "1.IH" [OF False] blk
      by (simp add: fb l tk option.map_comp comp_def)
  qed
qed

lemma deframe_sub_blocks: "deframe (sub_blocks d) = Some d"
proof (cases "length d mod 255 = 0")
  case True
  then have "255 * (length d div 255) = length d" by auto
  then show ?thesis
    using deframe_full_blocks [of d "[]"] True by (simp add: sub_blocks_def deframe.simps)
next
  case False
  let ?t = "drop (255 * (length d div 255)) d"
  have lt: "length ?t = length d mod 255"
    by (simp add: minus_mult_div_eq_mod mult.commute)
  have "deframe (of_nat (length ?t) # ?t @ []) = map_option ((@) ?t) (deframe [])"
    by (rule deframe_block) (use False lt in auto)
  then have A: "deframe (of_nat (length d mod 255) # ?t) = Some ?t"
    unfolding lt by (simp add: deframe.simps)
  show ?thesis
    by (simp only: sub_blocks_def tail_bytes_def False if_False deframe_full_blocks A
          option.map append_take_drop_id)
qed

lemma concat_bufio_writes: "concat (bufio_writes bs) = bs"
proof (induction bs rule: bufio_writes.induct)
  case (1 bs)
  show ?case
  proof (cases "bs = []")
    case True
    then show ?thesis by (subst bufio_writes.simps) simp
  next
    case False
    then show ?thesis
      using "1.IH" by (subst bufio_writes.simps) simp
  qed
qed

text \<open>
  C8. Whatever the writes \<open>ps\<close> handed to a fresh packetizer, none of them fails and:
  before the close the sink holds one 255-byte block (length byte 255) for every 255
  bytes of input so far and the packetizer keeps the remaining \<open>length mod 255\<close>
  bytes; after the close the sink holds these blocks followed by one block for the
  remaining 1 to 254 bytes, and nothing more when none remains; read back as a
  sequence of blocks with length bytes from 1 to 255, the sink gives the input.
\<close>

theorem blockWriter_frames_input:
  "\<exists>b. foldM (\<lambda>p b. blockWriter_Write b p) ps new_blockWriter = Inr b \<and>
       bw_w b = full_blocks (concat ps) \<and>
       bw_n b = length (concat ps) mod 255 \<and>
       bw_w (blockWriter_close b) =
         full_blocks (concat ps) @
           (if length (concat ps) mod 255 = 0 then []
            else of_nat (length (concat ps) mod 255) #
                 drop (255 * (length (concat ps) div 255)) (concat ps)) \<and>
       deframe (bw_w (blockWriter_close b)) = Some (concat ps)"
proof -
  obtain b where b: "foldM (\<lambda>p b. blockWriter_Write b p) ps new_blockWriter = Inr b"
      "bw_w b = full_blocks (concat ps)" "bw_n b = length (concat ps) mod 255"
      "bw_w (blockWriter_close b) = sub_blocks (concat ps)"
    using blockWriter_session [of ps] by blast
  have "deframe (bw_w (blockWriter_close b)) = Some (concat ps)"
    using b(4) deframe_sub_blocks by simp
  then show ?thesis
    using b by (auto simp: sub_blocks_def tail_bytes_def)
qed

theorem blockWriter_frames_input_witness:
  "\<exists>b. foldM (\<lambda>p b. blockWriter_Write b p) [[1, 2], [3]] new_blockWriter = Inr b \<and>
       bw_w b = [] \<and> bw_n b = 3 \<and> bw_w (blockWriter_close b) = [3, 1, 2, 3]"
  using blockWriter_frames_input [of "[[1, 2], [3]]"]
  by (auto simp: full_blocks_short)

section \<open>The row ranges of the workers\<close>

lemma quo_nonneg: "0 \<le> a \<Longrightarrow> 0 < b \<Longrightarrow> quo a b = a div b"
  by (cases "a = 0") (simp_all add: quo_def)

lemma div_less_1_iff: "0 \<le> h \<Longrightarrow> 1 \<le> n \<Longrightarrow> h div n < 1 \<longleftrightarrow> h < (n::int)"
  using pos_imp_zdiv_pos_iff [of n h] by auto

lemma stripPlan_nonneg:
  "0 \<le> h \<Longrightarrow> 1 \<le> n \<Longrightarrow> stripPlan h n = (if h < n then (1, h) else (h div n, n))"
  by (simp add: stripPlan_def quo_nonneg Let_def div_less_1_iff)

lemma upto_append: "i - 1 \<le> j \<Longrightarrow> j \<le> k \<Longrightarrow> [i..j] @ [j + 1..k] = [i..k]"
proof (cases "j = i - 1")
  case True
  then show ?thesis by simp
next
  case False
  assume "i - 1 \<le> j" "j \<le> k"
  with False show ?thesis using upto_split2 [of i j k] by simp
qed

lemma foldM_append:
  "foldM f (xs @ ys) s = (case foldM f xs s of Inl e \<Rightarrow> Inl e | Inr s' \<Rightarrow> foldM f ys s')"
  by (induction xs arbitrary: s) (auto split: sum.splits)

lemma foldM_concat:
  "foldM (\<lambda>r. foldM f (g r)) rs s = foldM f (concat (map g rs)) s"
  by (induction rs arbitrary: s) (auto simp: foldM_append split: sum.splits)

lemma upto_snoc: "i \<le> j \<Longrightarrow> [i..j] = [i..j - 1] @ [j]"
  by (simp add: upto_rec2)

lemma regular_rows:
  "0 \<le> rpw \<Longrightarrow>
   concat (map (\<lambda>i. [minY + i * rpw..minY + i * rpw + rpw - 1]) [0..int k - 1])
   = [minY..minY + int k * rpw - 1]"
proof (induction k)
  case 0
  then show ?case by simp
next
  case (Suc k)
  have sp: "[0..int k] = [0..int k - 1] @ [int k]"
    using upto_snoc [of 0 "int k"] by simp
  have "[minY..minY + int k * rpw - 1] @ [minY + int k * rpw - 1 + 1..minY + int (Suc k) * rpw - 1]
        = [minY..minY + int (Suc k) * rpw - 1]"
    using Suc.prems
    by (intro upto_append) (auto simp: algebra_simps)
  then show ?case
    using Suc by (simp add: sp algebra_simps)
qed

lemma rowsPer_pos: "0 \<le> h \<Longrightarrow> 1 \<le> workers \<Longrightarrow> 1 \<le> rowsPer h workers"
  using div_less_1_iff [of h workers] by (auto simp: rowsPer_def)

lemma effWorkers_rowsPer_le:
  assumes "0 \<le> h" "1 \<le> workers"
  shows "effWorkers h workers * rowsPer h workers \<le> h"
proof (cases "h < workers")
  case True
  then show ?thesis by (simp add: rowsPer_def effWorkers_def)
next
  case False
  have "0 \<le> h mod workers" using assms(2) by simp
  moreover have "workers * (h div workers) + h mod workers = h" by simp
  ultimately have "workers * (h div workers) \<le> h" by linarith
  with False show ?thesis by (simp add: rowsPer_def effWorkers_def)
qed

lemma rowRanges_explicit:
  assumes "1 \<le> workers" "minY \<le> maxY"
  shows "rowRanges minY maxY workers =
     map (\<lambda>i. (minY + i * rowsPer (maxY - minY) workers,
                if i = effWorkers (maxY - minY) workers - 1 then maxY
                else minY + i * rowsPer (maxY - minY) workers + rowsPer (maxY - minY) workers))
       [0..effWorkers (maxY - minY) workers - 1]"
proof -
  have "stripPlan (maxY - minY) workers
        = (rowsPer (maxY - minY) workers, effWorkers (maxY - minY) workers)"
    using stripPlan_nonneg [of "maxY - minY" workers] assms
    by (simp add: rowsPer_def effWorkers_def)
  then show ?thesis
    by (simp add: rowRanges_def Let_def)
qed

lemma rowRanges_split:
  assumes "1 \<le> workers" "minY \<le> maxY" "effWorkers (maxY - minY) workers = int (Suc k)"
  shows "rowRanges minY maxY workers =
     map (\<lambda>i. (minY + i * rowsPer (maxY - minY) workers,
                minY + i * rowsPer (maxY - minY) workers + rowsPer (maxY - minY) workers))
       [0..int k - 1]
     @ [(minY + int k * rowsPer (maxY - minY) workers, maxY)]"
proof -
  have sp: "[0..int k] = [0..int k - 1] @ [int k]"
    using upto_snoc [of 0 "int k"] by simp
  have w1: "effWorkers (maxY - minY) workers - 1 = int k" using assms(3) by simp
  show ?thesis
    unfolding rowRanges_explicit [OF assms(1,2)] w1
    by (subst sp) auto
qed

lemma rowRanges_empty:
  assumes "1 \<le> workers" "minY \<le> maxY" "effWorkers (maxY - minY) workers \<le> 0"
  shows "rowRanges minY maxY workers = []" "maxY = minY"
proof -
  show "rowRanges minY maxY workers = []"
    unfolding rowRanges_explicit [OF assms(1,2)] using assms(3) by simp
  show "maxY = minY"
    using assms by (auto simp: effWorkers_def split: if_splits)
qed

lemma rowRanges_negative:
  assumes "1 \<le> workers" "maxY < minY"
  shows "rowRanges minY maxY workers = []"
proof -
  have "quo (maxY - minY) workers = - (\<bar>maxY - minY\<bar> div workers)"
    using assms by (simp add: quo_def)
  moreover have "0 \<le> \<bar>maxY - minY\<bar> div workers"
    using assms(1) by (simp add: pos_imp_zdiv_nonneg_iff)
  ultimately have "stripPlan (maxY - minY) workers = (1, maxY - minY)"
    by (simp add: stripPlan_def Let_def)
  then show ?thesis
    using assms(2) by (simp add: rowRanges_def)
qed

lemma rowRanges_rows:
  assumes "1 \<le> workers" "minY \<le> maxY"
  shows "concat (map (\<lambda>(s, e). [s..e - 1]) (rowRanges minY maxY workers)) = [minY..maxY - 1]"
proof (cases "effWorkers (maxY - minY) workers \<le> 0")
  case True
  show ?thesis
    using rowRanges_empty [OF assms True] by simp
next
  case False
  then obtain k where k: "effWorkers (maxY - minY) workers = int (Suc k)"
    by (metis not_le zero_less_imp_eq_int gr0_implies_Suc of_nat_0_less_iff)
  let ?rpw = "rowsPer (maxY - minY) workers"
  have h0: "0 \<le> maxY - minY" using assms by simp
  have rpw1: "1 \<le> ?rpw" using rowsPer_pos [OF h0 assms(1)] .
  have rows: "concat (map (\<lambda>(s, e). [s..e - 1])
          (map (\<lambda>i. (minY + i * ?rpw, minY + i * ?rpw + ?rpw)) [0..int k - 1]))
        = [minY..minY + int k * ?rpw - 1]"
    using regular_rows [of ?rpw minY k] rpw1 by (simp add: comp_def)
  have le: "minY + int k * ?rpw \<le> maxY"
  proof -
    have "int k * ?rpw \<le> int (Suc k) * ?rpw" using rpw1 by (simp add: mult_right_mono)
    then show ?thesis using effWorkers_rowsPer_le [OF h0 assms(1)] k by simp
  qed
  have "[minY..minY + int k * ?rpw - 1] @ [minY + int k * ?rpw - 1 + 1..maxY - 1] = [minY..maxY - 1]"
  proof (intro upto_append)
    have "0 \<le> int k * ?rpw" using rpw1 by simp
    then show "minY - 1 \<le> minY + int k * ?rpw - 1" by simp
    show "minY + int k * ?rpw - 1 \<le> maxY - 1" using le by simp
  qed
  then show ?thesis
    unfolding rowRanges_split [OF assms k] using rows by simp
qed

lemma rowRanges_within:
  assumes "1 \<le> workers" "minY \<le> maxY" "(s, e) \<in> set (rowRanges minY maxY workers)"
  shows "minY \<le> s \<and> s \<le> e \<and> e \<le> maxY"
proof (cases "effWorkers (maxY - minY) workers \<le> 0")
  case True
  show ?thesis
    using rowRanges_empty(1) [OF assms(1,2) True] assms(3) by simp
next
  case False
  then obtain k where k: "effWorkers (maxY - minY) workers = int (Suc k)"
    by (metis not_le zero_less_imp_eq_int gr0_implies_Suc of_nat_0_less_iff)
  let ?rpw = "rowsPer (maxY - minY) workers"
  have h0: "0 \<le> maxY - minY" using assms by simp
  have rpw1: "1 \<le> ?rpw" using rowsPer_pos [OF h0 assms(1)] .
  have tot: "int (Suc k) * ?rpw \<le> maxY - minY"
    using effWorkers_rowsPer_le [OF h0 assms(1)] k by simp
  from assms(3) consider
      i where "0 \<le> i" "i \<le> int k - 1" "s = minY + i * ?rpw" "e = minY + i * ?rpw + ?rpw"
    | "s = minY + int k * ?rpw" "e = maxY"
    unfolding rowRanges_split [OF assms(1,2) k] by auto
  then show ?thesis
  proof cases
    case 1
    have "(i + 1) * ?rpw \<le> int (Suc k) * ?rpw"
      using 1(2) rpw1 by (intro mult_right_mono) auto
    then have "i * ?rpw + ?rpw \<le> maxY - minY" using tot by (simp add: algebra_simps)
    moreover have "0 \<le> i * ?rpw" using 1(1) rpw1 by simp
    ultimately show ?thesis using 1 rpw1 by simp
  next
    case 2
    have "int k * ?rpw \<le> int (Suc k) * ?rpw" using rpw1 by (simp add: mult_right_mono)
    moreover have "0 \<le> int k * ?rpw" using rpw1 by simp
    ultimately show ?thesis using 2 tot by simp
  qed
qed

section \<open>The quantizer writes every pixel of the bounds\<close>

lemma sides_In:
  assumes "wf_paletted pm" "point_In x y (Rect pm)"
  shows "0 \<le> x - sint (px (rmin (Rect pm)))"
    "x - sint (px (rmin (Rect pm))) < Dx (Rect pm)"
    "0 \<le> y - sint (py (rmin (Rect pm)))"
    "y - sint (py (rmin (Rect pm))) < Dy (Rect pm)"
proof -
  have "Dx (Rect pm) = sint (px (rmax (Rect pm))) - sint (px (rmin (Rect pm)))"
    using assms by (intro Dx_span) (auto simp: point_In_def wf_paletted_def)
  moreover have "Dy (Rect pm) = sint (py (rmax (Rect pm))) - sint (py (rmin (Rect pm)))"
    using assms by (intro Dy_span) (auto simp: point_In_def wf_paletted_def)
  ultimately show "0 \<le> x - sint (px (rmin (Rect pm)))"
    "x - sint (px (rmin (Rect pm))) < Dx (Rect pm)"
    "0 \<le> y - sint (py (rmin (Rect pm)))"
    "y - sint (py (rmin (Rect pm))) < Dy (Rect pm)"
    using assms(2) by (auto simp: point_In_def)
qed

lemma offset_bounds:
  assumes "wf_paletted pm" "point_In x y (Rect pm)"
  shows "0 \<le> PixOffset pm x y" "PixOffset pm x y < int (length (Pix pm))"
proof -
  define a where "a = y - sint (py (rmin (Rect pm)))"
  define b where "b = x - sint (px (rmin (Rect pm)))"
  define D where "D = Dx (Rect pm)"
  have ab: "0 \<le> a" "a < Dy (Rect pm)" "0 \<le> b" "b < D"
    using sides_In [OF assms] by (simp_all add: a_def b_def D_def)
  have off: "PixOffset pm x y = a * D + b"
    using assms(1) by (simp add: PixOffset_def wf_paletted_def a_def b_def D_def)
  have D0: "0 \<le> D" using ab by simp
  show "0 \<le> PixOffset pm x y" using ab D0 by (simp add: off)
  have "a * D + b < (a + 1) * D" using ab by (simp add: algebra_simps)
  also have "\<dots> \<le> Dy (Rect pm) * D"
    using ab D0 by (intro mult_right_mono) auto
  finally show "PixOffset pm x y < int (length (Pix pm))"
    using assms(1) by (simp add: off wf_paletted_def D_def mult.commute)
qed

lemma offset_inj:
  assumes "wf_paletted pm" "point_In x y (Rect pm)" "point_In x' y' (Rect pm)"
    "PixOffset pm x y = PixOffset pm x' y'"
  shows "x = x' \<and> y = y'"
proof -
  define D where "D = Dx (Rect pm)"
  define a b a' b' where "a = y - sint (py (rmin (Rect pm)))"
    and "b = x - sint (px (rmin (Rect pm)))"
    and "a' = y' - sint (py (rmin (Rect pm)))" and "b' = x' - sint (px (rmin (Rect pm)))"
  have ab: "0 \<le> b" "b < D" "0 \<le> b'" "b' < D"
    using sides_In [OF assms(1,2)] sides_In [OF assms(1,3)]
    by (simp_all add: b_def b'_def D_def)
  have eq: "a * D + b = a' * D + b'"
    using assms(1,4) by (simp add: PixOffset_def wf_paletted_def a_def b_def a'_def b'_def D_def)
  have "(a * D + b) div D = a" "(a' * D + b') div D = a'"
    using ab by (simp_all add: div_pos_pos_trivial)
  then have "a = a'" using eq by simp
  then have "b = b'" using eq by simp
  show ?thesis using \<open>a = a'\<close> \<open>b = b'\<close> by (simp add: a_def b_def a'_def b'_def)
qed

lemma SetColorIndex_in:
  assumes "wf_paletted pm" "point_In x y (Rect pm)"
  shows "SetColorIndex pm x y v = Inr (pm\<lparr>Pix := (Pix pm)[nat (PixOffset pm x y) := v]\<rparr>)"
  using offset_bounds [OF assms] assms(2) by (simp add: SetColorIndex_def Let_def)

lemma SetColorIndex_out:
  "\<not> point_In x y (Rect pm) \<Longrightarrow> SetColorIndex pm x y v = Inr pm"
  by (simp add: SetColorIndex_def)

lemma SetColorIndex_effect:
  assumes "wf_paletted pm"
  shows "\<exists>pm'. SetColorIndex pm x y v = Inr pm' \<and> wf_paletted pm' \<and> same_shape pm' pm \<and>
     (\<forall>x' y'. point_In x' y' (Rect pm) \<longrightarrow>
        ColorIndexAt pm' x' y' = (if (x', y') = (x, y) then v else ColorIndexAt pm x' y'))"
proof (cases "point_In x y (Rect pm)")
  case False
  then show ?thesis
    using assms by (auto simp: SetColorIndex_out same_shape_def)
next
  case True
  let ?pm' = "pm\<lparr>Pix := (Pix pm)[nat (PixOffset pm x y) := v]\<rparr>"
  have wf': "wf_paletted ?pm'" using assms by (simp add: wf_paletted_def)
  have sh: "same_shape ?pm' pm" by (simp add: same_shape_def)
  have off: "PixOffset ?pm' x' y' = PixOffset pm x' y'" for x' y'
    by (simp add: PixOffset_def)
  have "ColorIndexAt ?pm' x' y' = (if (x', y') = (x, y) then v else ColorIndexAt pm x' y')"
    if In': "point_In x' y' (Rect pm)" for x' y'
  proof (cases "(x', y') = (x, y)")
    case True
    then show ?thesis
      using offset_bounds [OF assms In'] In' by (simp add: ColorIndexAt_def off)
  next
    case False
    have "PixOffset pm x' y' \<noteq> PixOffset pm x y"
      using offset_inj [OF assms In' \<open>point_In x y (Rect pm)\<close>] False by auto
    then have "nat (PixOffset pm x' y') \<noteq> nat (PixOffset pm x y)"
      using offset_bounds(1) [OF assms In'] offset_bounds(1) [OF assms \<open>point_In x y (Rect pm)\<close>]
      by simp
    then show ?thesis
      using False In' by (auto simp: ColorIndexAt_def off)
  qed
  then show ?thesis
    using SetColorIndex_in [OF assms True, of v] wf' sh by blast
qed

lemma same_shape_trans: "same_shape p q \<Longrightarrow> same_shape q r \<Longrightarrow> same_shape p r"
  by (simp add: same_shape_def)

lemma same_shape_refl [simp]: "same_shape p p"
  by (simp add: same_shape_def)

lemma set_points_effect:
  assumes "wf_paletted pm"
  shows "\<exists>pm'. foldM (\<lambda>(x, y) pm. SetColorIndex pm x y (f x y)) pts pm = Inr pm' \<and>
     wf_paletted pm' \<and> same_shape pm' pm \<and>
     (\<forall>x' y'. point_In x' y' (Rect pm) \<longrightarrow>
        ColorIndexAt pm' x' y' = (if (x', y') \<in> set pts then f x' y' else ColorIndexAt pm x' y'))"
  using assms
proof (induction pts arbitrary: pm)
  case Nil
  then show ?case by simp
next
  case (Cons p pts)
  obtain x y where p: "p = (x, y)" by (cases p)
  obtain pm1 where s1: "SetColorIndex pm x y (f x y) = Inr pm1" "wf_paletted pm1"
      "same_shape pm1 pm"
      "\<And>x' y'. point_In x' y' (Rect pm) \<Longrightarrow>
        ColorIndexAt pm1 x' y' = (if (x', y') = (x, y) then f x y else ColorIndexAt pm x' y')"
    using SetColorIndex_effect [OF Cons.prems, of x y "f x y"] by blast
  obtain pm' where s2: "foldM (\<lambda>(x, y) pm. SetColorIndex pm x y (f x y)) pts pm1 = Inr pm'"
      "wf_paletted pm'" "same_shape pm' pm1"
      "\<And>x' y'. point_In x' y' (Rect pm1) \<Longrightarrow>
        ColorIndexAt pm' x' y' = (if (x', y') \<in> set pts then f x' y' else ColorIndexAt pm1 x' y')"
    using Cons.IH [OF s1(2)] by blast
  have R: "Rect pm1 = Rect pm" using s1(3) by (simp add: same_shape_def)
  have "ColorIndexAt pm' x' y' =
      (if (x', y') \<in> set (p # pts) then f x' y' else ColorIndexAt pm x' y')"
    if "point_In x' y' (Rect pm)" for x' y'
    using s2(4) [of x' y'] s1(4) [of x' y'] that R p by auto
  then show ?case
    using s1(1) s2(1,2) same_shape_trans [OF s2(3) s1(3)] p by auto
qed

lemma foldM_nested_points:
  "foldM (\<lambda>y. foldM (\<lambda>x. g x y) xs) ys s
   = foldM (\<lambda>(x, y). g x y) (concat (map (\<lambda>y. map (\<lambda>x. (x, y)) xs) ys)) s"
proof -
  have inner: "foldM (\<lambda>x. g x y) xs s = foldM (\<lambda>(x, y). g x y) (map (\<lambda>x. (x, y)) xs) s"
    for y s
    by (induction xs arbitrary: s) (auto split: sum.splits)
  show ?thesis
    by (induction ys arbitrary: s) (auto simp: foldM_append inner split: sum.splits)
qed

lemma foldM_ranges:
  "foldM (\<lambda>(sy, ey). foldM f [sy..ey - 1]) rs s
   = foldM f (concat (map (\<lambda>(s, e). [s..e - 1]) rs)) s"
  by (induction rs arbitrary: s) (auto simp: foldM_append split: sum.splits)

lemma getColorMapper_loops:
  "getColorMapper m pm m minX maxX startY endY =
     foldM (\<lambda>y. foldM (\<lambda>x pm. SetColorIndex pm x y (pixelIndex m x y)) [minX..maxX - 1])
       [startY..endY - 1] pm"
  by (cases "RGBA64At m") (simp_all add: getColorMapper_def pixelIndex_def)

lemma mapColors_rows:
  assumes "1 \<le> workers" "sint (py (rmin (Bounds m))) \<le> sint (py (rmax (Bounds m)))"
  shows "mapColors pm m workers =
     foldM (\<lambda>y. foldM (\<lambda>x pm. SetColorIndex pm x y (pixelIndex m x y))
              [sint (px (rmin (Bounds m)))..sint (px (rmax (Bounds m))) - 1])
       [sint (py (rmin (Bounds m)))..sint (py (rmax (Bounds m))) - 1] pm"
proof -
  let ?row = "\<lambda>y. foldM (\<lambda>x pm. SetColorIndex pm x y (pixelIndex m x y))
              [sint (px (rmin (Bounds m)))..sint (px (rmax (Bounds m))) - 1]"
  have "mapColors pm m workers =
      foldM (\<lambda>(sy, ey). foldM ?row [sy..ey - 1])
        (rowRanges (sint (py (rmin (Bounds m)))) (sint (py (rmax (Bounds m)))) workers) pm"
    using assms(1) by (simp add: mapColors_def Let_def getColorMapper_loops)
  also have "\<dots> = foldM ?row (concat (map (\<lambda>(s, e). [s..e - 1])
        (rowRanges (sint (py (rmin (Bounds m)))) (sint (py (rmax (Bounds m)))) workers))) pm"
    by (rule foldM_ranges)
  finally show ?thesis
    by (simp add: rowRanges_rows [OF assms])
qed

lemma mapColors_effect:
  assumes "1 \<le> workers" "sint (py (rmin (Bounds m))) \<le> sint (py (rmax (Bounds m)))"
    "wf_paletted pm" "Rect pm = Bounds m"
  shows "\<exists>pm'. mapColors pm m workers = Inr pm' \<and> wf_paletted pm' \<and> same_shape pm' pm \<and>
     (\<forall>x y. point_In x y (Bounds m) \<longrightarrow> ColorIndexAt pm' x y = pixelIndex m x y)"
proof -
  let ?pts = "concat (map (\<lambda>y. map (\<lambda>x. (x, y))
         [sint (px (rmin (Bounds m)))..sint (px (rmax (Bounds m))) - 1])
       [sint (py (rmin (Bounds m)))..sint (py (rmax (Bounds m))) - 1])"
  have eq: "mapColors pm m workers
      = foldM (\<lambda>(x, y) pm. SetColorIndex pm x y (pixelIndex m x y)) ?pts pm"
    unfolding mapColors_rows [OF assms(1,2)]
    by (rule foldM_nested_points [of "\<lambda>x y pm. SetColorIndex pm x y (pixelIndex m x y)"])
  have mem: "(x, y) \<in> set ?pts" if "point_In x y (Bounds m)" for x y
    using that by (force simp: point_In_def)
  obtain pm' where r: "foldM (\<lambda>(x, y) pm. SetColorIndex pm x y (pixelIndex m x y)) ?pts pm = Inr pm'"
     "wf_paletted pm'" "same_shape pm' pm"
     "\<And>x' y'. point_In x' y' (Rect pm) \<Longrightarrow>
        ColorIndexAt pm' x' y' = (if (x', y') \<in> set ?pts then pixelIndex m x' y' else ColorIndexAt pm x' y')"
    using set_points_effect [OF assms(3), of "pixelIndex m" ?pts] by blast
  have "ColorIndexAt pm' x y = pixelIndex m x y" if "point_In x y (Bounds m)" for x y
    using r(4) [of x y] that mem [OF that] assms(4) by simp
  then show ?thesis using r(1-3) eq by auto
qed


lemma mapColors_no_rows:
  assumes "1 \<le> workers" "sint (py (rmax (Bounds m))) < sint (py (rmin (Bounds m)))"
  shows "mapColors pm m workers = Inr pm"
  using assms by (simp add: mapColors_def Let_def rowRanges_negative)
section \<open>The compressors read the index buffer row by row\<close>

lemma slice_row:
  assumes "length P = D * H" "k < H"
  shows "sliceOf P (int k * int D) (int k * int D + int D) = Inr (take D (drop (k * D) P))"
proof -
  have "k * D + D \<le> D * H"
  proof -
    have "Suc k * D \<le> H * D" using assms(2) by (intro mult_le_mono1) simp
    then show ?thesis by (simp add: mult.commute)
  qed
  then have "int k * int D + int D \<le> int (length P)"
    using assms(1) by (metis of_nat_add of_nat_le_iff of_nat_mult)
  moreover have "nat (int k * int D) = k * D" by (simp add: nat_mult_distrib)
  ultimately show ?thesis by (simp add: sliceOf_def)
qed

lemma copy_row:
  assumes "length data = n" "lo + D \<le> n" "length src = D"
  shows "copy_slice data (int lo) (int lo + int D) src = Inr (take lo data @ src @ drop (lo + D) data)"
proof -
  have "int lo + int D \<le> int (length data)" using assms by simp
  moreover have "nat (int lo + int D) = lo + D" by simp
  ultimately show ?thesis
    using assms by (simp add: copy_slice_def copy_at_def)
qed

lemma copy_rows_single:
  fixes P :: "u8 list"
  assumes "length P = D * H" "k \<le> H"
  shows "foldM (\<lambda>y imageData.
            bindE (sliceOf P (y * int D) (y * int D + int D)) (\<lambda>src.
            copy_slice imageData (y * int D) ((y + 1) * int D) src))
          [0..int k - 1] (replicate (D * H) 0)
         = Inr (take (k * D) P @ replicate (D * H - k * D) 0)"
  using assms(2)
proof (induction k)
  case 0
  then show ?case by simp
next
  case (Suc k)
  have kH: "k < H" using Suc.prems by simp
  have sp: "[0..int k] = [0..int k - 1] @ [int k]"
    using upto_snoc [of 0 "int k"] by simp
  have le: "k * D + D \<le> D * H"
  proof -
    have "Suc k * D \<le> H * D" using kH by (intro mult_le_mono1) simp
    then show ?thesis by (simp add: mult.commute)
  qed
  let ?data = "take (k * D) P @ replicate (D * H - k * D) (0::u8)"
  have len: "length ?data = D * H" using kH assms(1) by simp
  have src: "length (take D (drop (k * D) P)) = D" using le kH assms(1) by simp
  have cp: "copy_slice ?data (int (k * D)) (int (k * D) + int D) (take D (drop (k * D) P))
      = Inr (take (k * D) ?data @ take D (drop (k * D) P) @ drop (k * D + D) ?data)"
    by (rule copy_row [OF len le src])
  have t1: "take (k * D) ?data = take (k * D) P" using kH assms(1) by simp
  have t2: "drop (k * D + D) ?data = replicate (D * H - (k * D + D)) 0"
    using le kH assms(1) by simp
  have t3: "take (k * D) P @ take D (drop (k * D) P) = take (k * D + D) P"
    by (simp add: take_add)
  have e1: "int k * int D = int (k * D)" by simp
  have e2: "(int k + 1) * int D = int (k * D) + int D" by (simp add: algebra_simps)
  have e3: "Suc k * D = k * D + D" by simp
  have "bindE (sliceOf P (int k * int D) (int k * int D + int D)) (\<lambda>src.
            copy_slice ?data (int k * int D) ((int k + 1) * int D) src)
        = copy_slice ?data (int k * int D) ((int k + 1) * int D) (take D (drop (k * D) P))"
    by (simp only: slice_row [OF assms(1) kH] bindE_def sum.case)
  also have "\<dots> = Inr (take (k * D) ?data @ take D (drop (k * D) P) @ drop (k * D + D) ?data)"
    unfolding e1 e2 by (rule cp)
  also have "\<dots> = Inr (take (Suc k * D) P @ replicate (D * H - Suc k * D) 0)"
    by (simp only: t1 t2 t3 [symmetric] append_assoc e3)
  finally have step: "bindE (sliceOf P (int k * int D) (int k * int D + int D)) (\<lambda>src.
            copy_slice ?data (int k * int D) ((int k + 1) * int D) src)
         = Inr (take (Suc k * D) P @ replicate (D * H - Suc k * D) 0)" .
  show ?case
    using Suc.IH kH step by (simp add: sp foldM_append)
qed

lemma copy_rows_strip:
  fixes P :: "u8 list"
  assumes "length P = D * H" "s + n \<le> H" "j \<le> n"
  shows "foldM (\<lambda>y (stripData, offset).
            bindE (sliceOf P (y * int D) (y * int D + int D)) (\<lambda>src.
            bindE (copy_slice stripData offset (offset + int D) src) (\<lambda>stripData.
            Inr (stripData, offset + int D))))
          [int s..int s + int j - 1] (replicate (n * D) 0, 0)
         = Inr (take (j * D) (drop (s * D) P) @ replicate (n * D - j * D) 0, int (j * D))"
  using assms(3)
proof (induction j)
  case 0
  then show ?case by simp
next
  case (Suc j)
  have jn: "j < n" using Suc.prems by simp
  have sjH: "s + j < H" using jn assms(2) by simp
  have sp: "[int s..int s + int (Suc j) - 1] = [int s..int s + int j - 1] @ [int s + int j]"
    using upto_snoc [of "int s" "int s + int j"] by simp
  have le: "j * D + D \<le> n * D"
  proof -
    have "Suc j * D \<le> n * D" using jn by (intro mult_le_mono1) simp
    then show ?thesis by simp
  qed
  let ?data = "take (j * D) (drop (s * D) P) @ replicate (n * D - j * D) (0::u8)"
  let ?src = "take D (drop ((s + j) * D) P)"
  have inP: "(s + j) * D + D \<le> length P"
  proof -
    have "Suc (s + j) * D \<le> H * D" using sjH by (intro mult_le_mono1) simp
    then show ?thesis using assms(1) by (simp add: mult.commute)
  qed
  have lenpre: "length (take (j * D) (drop (s * D) P)) = j * D"
    using inP by (simp add: algebra_simps)
  have len: "length ?data = n * D" using lenpre le by simp
  have src: "length ?src = D" using inP by simp
  have sl: "sliceOf P (int (s + j) * int D) (int (s + j) * int D + int D) = Inr ?src"
    by (rule slice_row [OF assms(1) sjH])
  have cp: "copy_slice ?data (int (j * D)) (int (j * D) + int D) ?src
      = Inr (take (j * D) ?data @ ?src @ drop (j * D + D) ?data)"
    by (rule copy_row [OF len le src])
  have t1: "take (j * D) ?data = take (j * D) (drop (s * D) P)" using lenpre by simp
  have t2: "drop (j * D + D) ?data = replicate (n * D - (j * D + D)) 0"
    using lenpre le by simp
  have "drop ((s + j) * D) P = drop (j * D) (drop (s * D) P)"
    by (simp add: add_mult_distrib add.commute)
  then have t3: "take (j * D) (drop (s * D) P) @ ?src = take (j * D + D) (drop (s * D) P)"
    by (simp only: take_add)
  have e1: "(int s + int j) * int D = int (s + j) * int D" by simp
  have e3: "Suc j * D = j * D + D" by simp
  have e4: "int (j * D) + int D = int (Suc j * D)" by simp
  have "(\<lambda>(stripData, offset).
            bindE (sliceOf P ((int s + int j) * int D) ((int s + int j) * int D + int D)) (\<lambda>src.
            bindE (copy_slice stripData offset (offset + int D) src) (\<lambda>stripData.
            Inr (stripData, offset + int D)))) (?data, int (j * D))
        = bindE (copy_slice ?data (int (j * D)) (int (j * D) + int D) ?src) (\<lambda>stripData.
            Inr (stripData, int (j * D) + int D))"
    unfolding e1 by (simp only: sl bindE_def sum.case prod.case)
  also have "\<dots> = Inr (take (j * D) ?data @ ?src @ drop (j * D + D) ?data, int (j * D) + int D)"
    by (simp only: cp bindE_def sum.case)
  also have "\<dots> = Inr (take (Suc j * D) (drop (s * D) P) @ replicate (n * D - Suc j * D) 0,
                        int (Suc j * D))"
    by (simp only: t1 t2 t3 [symmetric] append_assoc e3 e4)
  finally have step: "(\<lambda>(stripData, offset).
            bindE (sliceOf P ((int s + int j) * int D) ((int s + int j) * int D + int D)) (\<lambda>src.
            bindE (copy_slice stripData offset (offset + int D) src) (\<lambda>stripData.
            Inr (stripData, offset + int D)))) (?data, int (j * D))
        = Inr (take (Suc j * D) (drop (s * D) P) @ replicate (n * D - Suc j * D) 0,
               int (Suc j * D))" .
  show ?case
    unfolding sp foldM_append using Suc.IH jn step by simp
qed

lemma wf_paletted_nat:
  assumes "wf_paletted pm"
  shows "length (Pix pm) = nat (Dx (Rect pm)) * nat (Dy (Rect pm))"
    "Stride pm = int (nat (Dx (Rect pm)))" "Dx (Rect pm) = int (nat (Dx (Rect pm)))"
    "Dy (Rect pm) = int (nat (Dy (Rect pm)))"
proof -
  have "int (length (Pix pm)) = int (nat (Dx (Rect pm)) * nat (Dy (Rect pm)))"
    using assms by (simp add: wf_paletted_def)
  then show "length (Pix pm) = nat (Dx (Rect pm)) * nat (Dy (Rect pm))"
    by (rule of_nat_eq_iff [THEN iffD1])
qed (use assms in \<open>simp_all add: wf_paletted_def\<close>)

lemma compressStrip_nat:
  assumes "length (Pix pm) = D * H" "Stride pm = int D" "s + n \<le> H"
  shows "compressStrip pm litWidth (int D) (int s, int s + int n)
         = lzwBlocks litWidth (take (n * D) (drop (s * D) (Pix pm)))"
proof -
  have sz: "(int s + int n - int s) * int D = int (n * D)" by simp
  have nn: "\<not> int (n * D) < 0" using of_nat_0_le_iff [of "n * D"] by linarith
  have rows: "foldM (\<lambda>y (stripData, offset).
            bindE (sliceOf (Pix pm) (y * int D) (y * int D + int D)) (\<lambda>src.
            bindE (copy_slice stripData offset (offset + int D) src) (\<lambda>stripData.
            Inr (stripData, offset + int D))))
          [int s..int s + int n - 1] (replicate (n * D) 0, 0)
         = Inr (take (n * D) (drop (s * D) (Pix pm)) @ replicate (n * D - n * D) 0, int (n * D))"
    by (rule copy_rows_strip [OF assms(1,3) order_refl])
  show ?thesis
    unfolding compressStrip_def prod.case Let_def assms(2) sz
    by (simp only: nn if_False nat_int rows) (simp add: bindE_def)
qed

lemma compressStrip_eq:
  assumes "wf_paletted pm" "0 \<le> sy" "sy \<le> ey" "ey \<le> Dy (Rect pm)"
  shows "compressStrip pm litWidth (Dx (Rect pm)) (sy, ey) = lzwBlocks litWidth (strip_of pm (sy, ey))"
proof -
  note nat = wf_paletted_nat [OF assms(1)]
  have e: "sy = int (nat sy)" "ey = int (nat sy) + int (nat (ey - sy))"
    using assms by simp_all
  have "nat sy + nat (ey - sy) \<le> nat (Dy (Rect pm))" using assms by simp
  from compressStrip_nat [OF nat(1,2) this, of litWidth]
  show ?thesis
    using e nat(3) by (simp add: strip_of_def)
qed

section \<open>What the two compressors emit\<close>

lemma blocks_of_bytes:
  "bindE (foldM (\<lambda>p b. blockWriter_Write b p) (bufio_writes bytes) new_blockWriter)
     (\<lambda>bw. Inr (bw_w (blockWriter_close bw))) = Inr (sub_blocks bytes)"
proof -
  obtain b where "foldM (\<lambda>p b. blockWriter_Write b p) (bufio_writes bytes) new_blockWriter = Inr b"
      "bw_w (blockWriter_close b) = sub_blocks (concat (bufio_writes bytes))"
    using blockWriter_session [of "bufio_writes bytes"] by blast
  then show ?thesis by (simp add: bindE_def concat_bufio_writes)
qed

lemma lzwBlocks_eq:
  "lzwBlocks litWidth data =
     bindE (lzw_NewWriter litWidth) (\<lambda>lzww.
     bindE (lzw_Write lzww data) (\<lambda>lzww.
     Inr (sub_blocks (lz_w (lzw_Close lzww)))))"
  by (simp add: lzwBlocks_def blocks_of_bytes)

lemma take_all_rows: "length P = D * H \<Longrightarrow> take (H * D) P = P"
  by (simp add: mult.commute)

lemma writeLZWData_single:
  assumes "wf_paletted pm" "1 \<le> workers" "\<not> (workers > 1 \<and> Dy (Rect pm) \<ge> wrap64 (workers * 4))"
  shows "writeLZWData w pm litWidth workers =
     bindE (lzwBlocks litWidth (Pix pm)) (\<lambda>blocks. Inr (w @ blocks))"
proof -
  define D H where "D = nat (Dx (Rect pm))" and "H = nat (Dy (Rect pm))"
  note nat = wf_paletted_nat [OF assms(1), folded D_def H_def]
  let ?row = "\<lambda>y imageData.
            bindE (sliceOf (Pix pm) (y * int D) (y * int D + int D)) (\<lambda>src.
            copy_slice imageData (y * int D) ((y + 1) * int D) src)"
  have rng: "concat (map (\<lambda>(s, e). [s..e - 1]) (rowRanges 0 (int H) workers)) = [0..int H - 1]"
    by (rule rowRanges_rows [OF assms(2)]) simp
  have "foldM (\<lambda>(sy, ey). foldM ?row [sy..ey - 1]) (rowRanges 0 (int H) workers)
          (replicate (D * H) 0)
        = foldM ?row [0..int H - 1] (replicate (D * H) 0)"
    by (simp only: foldM_ranges rng)
  also have "\<dots> = Inr (take (H * D) (Pix pm) @ replicate (D * H - H * D) 0)"
    by (rule copy_rows_single [OF nat(1) order_refl])
  also have "\<dots> = Inr (Pix pm)"
    using nat(1) by (simp add: mult.commute)
  finally have rows: "foldM (\<lambda>(sy, ey). foldM ?row [sy..ey - 1]) (rowRanges 0 (int H) workers)
          (replicate (D * H) 0) = Inr (Pix pm)" .
  have sz: "nat (int D * int H) = D * H" "\<not> int D * int H < 0"
    using of_nat_0_le_iff [of "D * H"] by (simp_all add: nat_mult_distrib not_less)
  have w0: "workers \<noteq> 0" using assms(2) by simp
  show ?thesis
    unfolding writeLZWData_def Let_def nat(2) nat(3) nat(4)
    using assms(3) [unfolded nat(4)] w0
    by (simp only: if_False sz rows) (simp add: bindE_def)
qed

lemma mapM_cong: "(\<And>x. x \<in> set xs \<Longrightarrow> f x = g x) \<Longrightarrow> mapM f xs = mapM g xs"
proof (induction xs)
  case Nil
  then show ?case by simp
next
  case (Cons x xs)
  have "f x = g x" "mapM f xs = mapM g xs" using Cons by auto
  then show ?case by (simp split: sum.splits)
qed

lemma foldl_append_chunks: "foldl (\<lambda>w data. w @ data) w chunks = w @ concat chunks"
  by (induction chunks arbitrary: w) auto

lemma writeParallelLZW_eq:
  assumes "wf_paletted pm" "1 \<le> workers"
  shows "writeParallelLZW w pm litWidth workers =
     bindE (mapM (\<lambda>r. lzwBlocks litWidth (strip_of pm r)) (rowRanges 0 (Dy (Rect pm)) workers))
       (\<lambda>chunks. Inr (w @ concat chunks))"
proof -
  have dy: "0 \<le> Dy (Rect pm)" using assms(1) by (simp add: wf_paletted_def)
  have "stripPlan (Dy (Rect pm)) workers
        = (rowsPer (Dy (Rect pm)) workers, effWorkers (Dy (Rect pm)) workers)"
    using stripPlan_nonneg [OF dy assms(2)] by (simp add: rowsPer_def effWorkers_def)
  then have nn: "\<not> snd (stripPlan (Dy (Rect pm)) workers) < 0"
    using dy assms(2) by (simp add: effWorkers_def)
  have "compressStrip pm litWidth (Dx (Rect pm)) r = lzwBlocks litWidth (strip_of pm r)"
    if "r \<in> set (rowRanges 0 (Dy (Rect pm)) workers)" for r
  proof -
    obtain sy ey where r: "r = (sy, ey)" by (cases r)
    have "0 \<le> sy \<and> sy \<le> ey \<and> ey \<le> Dy (Rect pm)"
      using rowRanges_within [OF assms(2) dy] that r by blast
    then show ?thesis
      using compressStrip_eq [OF assms(1), of sy ey litWidth] r by simp
  qed
  then have "mapM (compressStrip pm litWidth (Dx (Rect pm))) (rowRanges 0 (Dy (Rect pm)) workers)
      = mapM (\<lambda>r. lzwBlocks litWidth (strip_of pm r)) (rowRanges 0 (Dy (Rect pm)) workers)"
    by (rule mapM_cong)
  then show ?thesis
    using nn assms(2) by (simp add: writeParallelLZW_def Let_def foldl_append_chunks)
qed

lemma lzwBlocks_8: "\<exists>bs. lzwBlocks 8 data = Inr bs"
  by (cases "data = []")
     (auto simp: lzwBlocks_eq lzw_NewWriter_def lzw_Write_def bindE_def Let_def
       split: prod.splits)

lemma mapM_total: "(\<And>x. x \<in> set xs \<Longrightarrow> \<exists>y. f x = Inr y) \<Longrightarrow> \<exists>ys. mapM f xs = Inr ys"
proof (induction xs)
  case Nil
  then show ?case by simp
next
  case (Cons x xs)
  obtain y where "f x = Inr y" using Cons.prems by auto
  moreover obtain ys where "mapM f xs = Inr ys" using Cons by auto
  ultimately show ?case by simp
qed

lemma writeLZWData_8:
  assumes "wf_paletted pm" "1 \<le> workers"
  shows "\<exists>data. writeLZWData w pm 8 workers = Inr (w @ data)"
proof (cases "workers > 1 \<and> Dy (Rect pm) \<ge> wrap64 (workers * 4)")
  case True
  obtain chunks where "mapM (\<lambda>r. lzwBlocks 8 (strip_of pm r))
      (rowRanges 0 (Dy (Rect pm)) workers) = Inr chunks"
    using mapM_total [of _ "\<lambda>r. lzwBlocks 8 (strip_of pm r)"] lzwBlocks_8 by blast
  then show ?thesis
    using True writeParallelLZW_eq [OF assms, of w 8]
    by (simp add: writeLZWData_def Let_def bindE_def)
next
  case False
  obtain bs where "lzwBlocks 8 (Pix pm) = Inr bs" using lzwBlocks_8 by blast
  then show ?thesis
    using writeLZWData_single [OF assms False, of w 8] by (simp add: bindE_def)
qed

section \<open>The header of the bitstream\<close>

lemma paddedSize_loop_eq:
  "paddedSize_loop 1 n =
     (if n \<le> 1 then 1 else if n \<le> 2 then 2 else if n \<le> 4 then 4 else if n \<le> 8 then 8
      else if n \<le> 16 then 16 else if n \<le> 32 then 32 else if n \<le> 64 then 64
      else if n \<le> 128 then 128 else 256)"
  by (simp add: paddedSize_loop.simps)

lemma litWidth_loop_eq:
  "litWidth_loop 2 n =
     (if n \<le> 4 then 2 else if n \<le> 8 then 3 else if n \<le> 16 then 4 else if n \<le> 32 then 5
      else if n \<le> 64 then 6 else if n \<le> 128 then 7 else 8)"
  by (simp add: litWidth_loop.simps)

lemma writeColorTable_eq:
  "writeColorTable w p paddedSize =
     w @ concat (map (\<lambda>i. if i < int (length p)
                        then (case nrgbaModel (p ! nat i) of (r, g, b, a) \<Rightarrow> [r, g, b])
                        else [0, 0, 0]) [0..paddedSize - 1])"
proof -
  have "foldl (\<lambda>w i. w @ f i) w xs = w @ concat (map f xs)" for f :: "int \<Rightarrow> u8 list" and xs w
    by (induction xs arbitrary: w) auto
  then show ?thesis by (simp add: writeColorTable_def)
qed

lemma upt_6: "[0..<6] = [0, 1, 2, 3, 4, 5]"
  by (simp add: upt_rec)

lemma length_WebSafe: "length WebSafe = 216"
  by (simp add: WebSafe_def length_concat comp_def upt_6)

lemma upto_0_7: "[0..7] = [0, 1, 2, 3, 4, 5, 6, 7]"
  by (simp add: upto_rec1)

lemma log2_256: "log2 256 = 7"
  by (simp add: log2_def upto_0_7)

lemma encodeGIF_head_WebSafe:
  assumes "Palette pm = WebSafe"
  shows "encodeGIF_head pm =
    ([0x47, 0x49, 0x46, 0x38, 0x39, 0x61] @
     writeUint16 [] (word_of_int (Dx (Rect pm))) @ writeUint16 [] (word_of_int (Dy (Rect pm))) @
     [0x87, 0x00, 0x00] @
     writeColorTable [] WebSafe 256 @
     [0x2C, 0x00, 0x00, 0x00, 0x00] @
     writeUint16 [] (word_of_int (Dx (Rect pm))) @ writeUint16 [] (word_of_int (Dy (Rect pm))) @
     [0x00, 0x08], 8)"
  by (simp add: encodeGIF_head_def Let_def assms length_WebSafe paddedSize_loop_eq litWidth_loop_eq
        log2_256 writeUint16_def writeColorTable_eq)

lemma length_writeColorTable:
  "0 \<le> paddedSize \<Longrightarrow> length (writeColorTable [] p paddedSize) = 3 * nat paddedSize"
proof -
  assume "0 \<le> paddedSize"
  have "length (concat (map f xs)) = 3 * length xs"
    if "\<And>i. length (f i) = 3" for f :: "int \<Rightarrow> u8 list" and xs
    using that by (induction xs) auto
  then show ?thesis
    using \<open>0 \<le> paddedSize\<close> by (simp add: writeColorTable_eq split: prod.splits)
qed


lemma writeLZWData_prefix:
  "writeLZWData w pm litWidth workers = Inr out \<Longrightarrow> \<exists>data. out = w @ data"
  by (auto simp: writeLZWData_def writeParallelLZW_def Let_def bindE_def foldl_append_chunks
      split: if_splits sum.splits)

lemma upt_2_8: "[2..<8] = [2, 3, 4, 5, 6, 7]"
  by (simp add: upt_rec)

lemma upt_0_8: "[0..<8] = [0, 1, 2, 3, 4, 5, 6, 7]"
  by (simp add: upt_rec)

lemma minCodeSize_eq:
  "minCodeSize n =
     (if n \<le> 4 then 2 else if n \<le> 8 then 3 else if n \<le> 16 then 4 else if n \<le> 32 then 5
      else if n \<le> 64 then 6 else if n \<le> 128 then 7 else 8)"
  by (simp add: minCodeSize_def upt_2_8)

lemma paddedPaletteSize_eq:
  "paddedPaletteSize n =
     (if n \<le> 1 then 1 else if n \<le> 2 then 2 else if n \<le> 4 then 4 else if n \<le> 8 then 8
      else if n \<le> 16 then 16 else if n \<le> 32 then 32 else if n \<le> 64 then 64
      else if n \<le> 128 then 128 else 256)"
  by (simp add: paddedPaletteSize_def upt_0_8)

lemma litWidth_minCodeSize: "litWidth_loop 2 (int n) = int (minCodeSize n)"
  by (simp add: litWidth_loop_eq minCodeSize_eq)

lemma paddedSize_paddedPaletteSize: "paddedSize_loop 1 (int n) = int (paddedPaletteSize n)"
  by (simp add: paddedSize_loop_eq paddedPaletteSize_eq)

lemma length_table_entry [simp]: "length (table_entry p i) = 3"
  by (simp add: table_entry_def split: prod.splits)

lemma writeColorTable_entries:
  "writeColorTable [] p (int P) = concat (map (table_entry p) [0..<P])"
proof -
  have "map (\<lambda>i. table_entry p (nat i)) [0..int P - 1] = map (table_entry p) [0..<P]"
  proof (induction P)
    case 0
    then show ?case by simp
  next
    case (Suc P)
    have "[0..int P] = [0..int P - 1] @ [int P]"
      using upto_snoc [of 0 "int P"] by simp
    then show ?case using Suc by simp
  qed
  moreover have "(\<lambda>i. if i < int (length p)
                        then (case nrgbaModel (p ! nat i) of (r, g, b, a) \<Rightarrow> [r, g, b])
                        else [0, 0, 0]) i = table_entry p (nat i)" if "0 \<le> i" for i
    using that by (auto simp: table_entry_def)
  then have "map (\<lambda>i. if i < int (length p)
                        then (case nrgbaModel (p ! nat i) of (r, g, b, a) \<Rightarrow> [r, g, b])
                        else [0, 0, 0]) [0..int P - 1]
        = map (\<lambda>i. table_entry p (nat i)) [0..int P - 1]"
    by (intro map_cong refl) auto
  ultimately show ?thesis
    by (simp add: writeColorTable_eq)
qed

lemma concat_entries_nth:
  assumes "\<And>i. length (f i) = 3" "i < P"
  shows "take 3 (drop (3 * i) (concat (map f [0..<P]) @ rest)) = f i"
  using assms(2)
proof (induction P arbitrary: rest)
  case 0
  then show ?case by simp
next
  case (Suc P)
  have len: "length (concat (map f [0..<P])) = 3 * P"
    using assms(1) by (induction P) auto
  show ?case
  proof (cases "i < P")
    case True
    then show ?thesis
      using Suc.IH [OF True, of "f P @ rest"] by simp
  next
    case False
    then have "i = P" using Suc.prems by simp
    then show ?thesis using len assms(1) by simp
  qed
qed

lemma encodeGIF_head_eq:
  "fst (encodeGIF_head pm) =
    [0x47, 0x49, 0x46, 0x38, 0x39, 0x61] @
    writeUint16 [] (word_of_int (Dx (Rect pm))) @ writeUint16 [] (word_of_int (Dy (Rect pm))) @
    [0x80 OR word_of_int (log2 (int (paddedPaletteSize (length (Palette pm))))), 0x00, 0x00] @
    concat (map (table_entry (Palette pm)) [0..<paddedPaletteSize (length (Palette pm))]) @
    [0x2C, 0x00, 0x00, 0x00, 0x00] @
    writeUint16 [] (word_of_int (Dx (Rect pm))) @ writeUint16 [] (word_of_int (Dy (Rect pm))) @
    [0x00, word_of_int (snd (encodeGIF_head pm))]"
  by (simp add: encodeGIF_head_def Let_def paddedSize_paddedPaletteSize writeUint16_def
        writeColorTable_eq [of "_ @ _"] writeColorTable_entries [unfolded writeColorTable_eq, simplified])

lemma encodeGIF_out:
  assumes "encodeGIF w pm workers = (None, out)"
  shows "Palette pm \<noteq> [] \<and> (\<exists>data. out = w @ fst (encodeGIF_head pm) @ data @ [0x00, 0x3B])"
proof -
  have ne: "Palette pm \<noteq> []" using assms by (auto simp: encodeGIF_def)
  obtain bw where bw: "writeLZWData (fst (encodeGIF_head pm)) pm (snd (encodeGIF_head pm)) workers
      = Inr bw" "out = w @ bw @ [0x00, 0x3B]"
    using assms ne by (auto simp: encodeGIF_def split: prod.splits sum.splits)
  obtain data where "bw = fst (encodeGIF_head pm) @ data"
    using writeLZWData_prefix [OF bw(1)] by blast
  then show ?thesis using ne bw(2) by simp
qed

section \<open>Encode, step by step\<close>

lemma NewPaletted_wf:
  assumes "0 \<le> Dx r" "0 \<le> Dy r"
  shows "\<exists>pm. NewPaletted r p = Inr pm \<and> wf_paletted pm \<and> Rect pm = r \<and> Palette pm = p"
  using assms by (simp add: NewPaletted_def wf_paletted_def nat_mult_distrib)

lemma workersOf_pos: "1 \<le> numCPU \<Longrightarrow> 1 \<le> workersOf numCPU opts"
  by (auto simp: workersOf_def split: option.splits)

lemma Dx_Dy_Sub [simp]:
  "Dx (rectangle_Sub r p) = Dx r" "Dy (rectangle_Sub r p) = Dy r"
  by (simp_all add: Dx_def Dy_def rectangle_Sub_def)

lemma atOrigin_simps [simp]:
  "Pix (atOrigin pm) = Pix pm" "Stride (atOrigin pm) = Stride pm"
  "Palette (atOrigin pm) = Palette pm"
  "Dx (Rect (atOrigin pm)) = Dx (Rect pm)" "Dy (Rect (atOrigin pm)) = Dy (Rect pm)"
  by (simp_all add: atOrigin_def)

lemma wf_atOrigin: "wf_paletted pm \<Longrightarrow> wf_paletted (atOrigin pm)"
  by (simp add: wf_paletted_def)

lemma Encode_eq:
  "Encode numCPU w m opts =
     (if Dx (Bounds m) \<ge> 2 ^ 16 \<or> Dy (Bounds m) \<ge> 2 ^ 16 then (Some ImageTooLarge, w)
      else case indexBuffer m (workersOf numCPU opts) of
             Inl err \<Rightarrow> (Some err, w)
           | Inr pm \<Rightarrow> encodeGIF w (atOrigin pm) (workersOf numCPU opts))"
  by (simp add: Encode_def indexBuffer_def workersOf_def atOrigin_def bindE_def Let_def
      split: sum.splits option.splits)

lemma indexBuffer_ok:
  assumes "1 \<le> workers" "0 \<le> Dx (Bounds m)" "0 \<le> Dy (Bounds m)"
  shows "\<exists>pm. indexBuffer m workers = Inr pm \<and> wf_paletted pm \<and> Rect pm = Bounds m \<and>
     Palette pm = WebSafe \<and>
     (\<forall>x y. point_In x y (Bounds m) \<longrightarrow> ColorIndexAt pm x y = pixelIndex m x y)"
proof -
  obtain pm0 where p0: "NewPaletted (Bounds m) WebSafe = Inr pm0" "wf_paletted pm0"
      "Rect pm0 = Bounds m" "Palette pm0 = WebSafe"
    using NewPaletted_wf [OF assms(2,3)] by blast
  show ?thesis
  proof (cases "sint (py (rmin (Bounds m))) \<le> sint (py (rmax (Bounds m)))")
    case True
    obtain pm where p: "mapColors pm0 m workers = Inr pm" "wf_paletted pm" "same_shape pm pm0"
        "\<And>x y. point_In x y (Bounds m) \<Longrightarrow> ColorIndexAt pm x y = pixelIndex m x y"
      using mapColors_effect [OF assms(1) True p0(2,3)] by blast
    show ?thesis
      using p0 p by (auto simp: indexBuffer_def bindE_def same_shape_def)
  next
    case False
    then have "mapColors pm0 m workers = Inr pm0"
      using mapColors_no_rows [OF assms(1)] by simp
    moreover have "\<not> point_In x y (Bounds m)" for x y
      using False by (auto simp: point_In_def)
    ultimately show ?thesis
      using p0 by (auto simp: indexBuffer_def bindE_def)
  qed
qed

lemma indexBuffer_workers:
  assumes "1 \<le> w1" "1 \<le> w2"
  shows "indexBuffer m w1 = indexBuffer m w2"
proof (cases "sint (py (rmin (Bounds m))) \<le> sint (py (rmax (Bounds m)))")
  case True
  show ?thesis
    by (simp add: indexBuffer_def mapColors_rows [OF assms(1) True]
          mapColors_rows [OF assms(2) True])
next
  case False
  then show ?thesis
    by (simp add: indexBuffer_def mapColors_no_rows [OF assms(1)]
          mapColors_no_rows [OF assms(2)])
qed

lemma encodeGIF_WebSafe:
  assumes "wf_paletted pm" "Palette pm = WebSafe" "1 \<le> workers"
  shows "\<exists>data. writeLZWData (fst (encodeGIF_head pm)) pm 8 workers
                  = Inr (fst (encodeGIF_head pm) @ data) \<and>
     encodeGIF w pm workers = (None, w @ fst (encodeGIF_head pm) @ data @ [0x00, 0x3B])"
proof -
  obtain data where d: "writeLZWData (fst (encodeGIF_head pm)) pm 8 workers
      = Inr (fst (encodeGIF_head pm) @ data)"
    using writeLZWData_8 [OF assms(1,3)] by blast
  have "snd (encodeGIF_head pm) = 8"
    by (simp add: encodeGIF_head_WebSafe [OF assms(2)])
  then show ?thesis
    using d assms(2) by (auto simp: encodeGIF_def length_WebSafe split: prod.splits)
qed

lemma Encode_ok:
  assumes "1 \<le> numCPU" "0 \<le> Dx (Bounds m)" "0 \<le> Dy (Bounds m)"
    "Dx (Bounds m) < 2 ^ 16" "Dy (Bounds m) < 2 ^ 16"
  shows "\<exists>pm data. indexBuffer m (workersOf numCPU opts) = Inr pm \<and>
     writeLZWData (fst (encodeGIF_head (atOrigin pm))) (atOrigin pm) 8 (workersOf numCPU opts)
       = Inr (fst (encodeGIF_head (atOrigin pm)) @ data) \<and>
     Encode numCPU w m opts
       = (None, w @ fst (encodeGIF_head (atOrigin pm)) @ data @ [0x00, 0x3B])"
proof -
  have wk: "1 \<le> workersOf numCPU opts" by (rule workersOf_pos [OF assms(1)])
  obtain pm where pm: "indexBuffer m (workersOf numCPU opts) = Inr pm" "wf_paletted pm"
      "Palette pm = WebSafe"
    using indexBuffer_ok [OF wk assms(2,3)] by blast
  have "wf_paletted (atOrigin pm)" "Palette (atOrigin pm) = WebSafe"
    using pm by (simp_all add: wf_atOrigin)
  from encodeGIF_WebSafe [OF this wk, of w]
  show ?thesis
    using pm(1) assms(4,5) by (auto simp: Encode_eq)
qed

section \<open>The claims about the partition, the size check and the empty palette\<close>

text \<open>
  C3, as the code has it. For at least one worker and a height \<open>H = maxY - minY\<close> that
  is not negative, the rows are handed out in \<open>effWorkers H workers\<close> contiguous
  ranges: as many as there are workers, or \<open>H\<close> of them when \<open>H < workers\<close>. Range \<open>i\<close>
  starts at \<open>minY + i * rowsPer H workers\<close>, where \<open>rowsPer\<close> is the quotient \<open>H div
  workers\<close> rounded down (1 when \<open>H < workers\<close>), and ends where the next one starts;
  the last range ends at \<open>maxY\<close> and so takes the remainder: with \<open>workers \<le> H\<close> it
  has \<open>H div workers + H mod workers\<close> rows. Together the ranges are
  the rows from \<open>minY\<close> to \<open>maxY - 1\<close>, each once and in order. The quantizer calls
  this with the bounds of the image, both compressors with \<open>0\<close> and the height.
\<close>

theorem rowRanges_floor_partition:
  assumes "1 \<le> workers" "minY \<le> maxY"
  shows "rowRanges minY maxY workers =
           map (\<lambda>i. (minY + i * rowsPer (maxY - minY) workers,
                      if i = effWorkers (maxY - minY) workers - 1 then maxY
                      else minY + (i + 1) * rowsPer (maxY - minY) workers))
             [0..effWorkers (maxY - minY) workers - 1] \<and>
         rowsPer (maxY - minY) workers
           = (if maxY - minY < workers then 1 else (maxY - minY) div workers) \<and>
         effWorkers (maxY - minY) workers
           = (if maxY - minY < workers then maxY - minY else workers) \<and>
         length (rowRanges minY maxY workers) = nat (effWorkers (maxY - minY) workers) \<and>
         (workers \<le> maxY - minY \<longrightarrow>
            snd (last (rowRanges minY maxY workers)) - fst (last (rowRanges minY maxY workers))
              = (maxY - minY) div workers + (maxY - minY) mod workers) \<and>
         concat (map (\<lambda>(s, e). [s..e - 1]) (rowRanges minY maxY workers)) = [minY..maxY - 1]"
proof -
  have lastr: "snd (last (rowRanges minY maxY workers)) - fst (last (rowRanges minY maxY workers))
      = (maxY - minY) div workers + (maxY - minY) mod workers"
    if le: "workers \<le> maxY - minY"
  proof -
    have e: "effWorkers (maxY - minY) workers = workers"
      "rowsPer (maxY - minY) workers = (maxY - minY) div workers"
      using le by (simp_all add: effWorkers_def rowsPer_def)
    obtain k where k: "workers = int (Suc k)"
      using assms(1) by (metis not_le zero_less_imp_eq_int gr0_implies_Suc of_nat_0_less_iff
          zero_less_one less_le_trans)
    have "last (rowRanges minY maxY workers)
        = (minY + int k * ((maxY - minY) div workers), maxY)"
      using rowRanges_split [OF assms, of k] k e by simp
    moreover have "maxY - minY = workers * ((maxY - minY) div workers) + (maxY - minY) mod workers"
      by simp
    ultimately show ?thesis
      using k by (simp add: algebra_simps)
  qed
  have "rowRanges minY maxY workers =
           map (\<lambda>i. (minY + i * rowsPer (maxY - minY) workers,
                      if i = effWorkers (maxY - minY) workers - 1 then maxY
                      else minY + (i + 1) * rowsPer (maxY - minY) workers))
             [0..effWorkers (maxY - minY) workers - 1]"
    unfolding rowRanges_explicit [OF assms] by (simp add: algebra_simps)
  moreover have "length (rowRanges minY maxY workers) = nat (effWorkers (maxY - minY) workers)"
    unfolding rowRanges_explicit [OF assms] by simp
  ultimately show ?thesis
    using rowRanges_rows [OF assms] lastr by (simp add: rowsPer_def effWorkers_def)
qed

theorem rowRanges_floor_partition_witness:
  "(1::int) \<le> 4 \<and> (0::int) \<le> 10 \<and> rowRanges 0 10 4 = [(0, 2), (2, 4), (4, 6), (6, 10)]"
  using rowRanges_floor_partition [of 4 0 10]
  by (simp add: rowsPer_def effWorkers_def upto_rec1)

text \<open>
  The claim C3 as written fails: with ten rows and four workers the ranges before the
  last have two rows each, not the three of \<open>ceil (10 / 4)\<close>.
\<close>

theorem rowRanges_not_ceil:
  "rowRanges 0 10 4 = [(0, 2), (2, 4), (4, 6), (6, 10)] \<and> ceil_div 10 4 = 3 \<and>
   snd (rowRanges 0 10 4 ! 0) - fst (rowRanges 0 10 4 ! 0) \<noteq> ceil_div 10 4"
proof -
  have "rowRanges 0 10 4 = [(0, 2), (2, 4), (4, 6), (6, 10)]"
    by (simp add: rowRanges_explicit rowsPer_def effWorkers_def upto_rec1)
  then show ?thesis by (simp add: ceil_div_def)
qed

text \<open>
  C9. With an empty palette \<^verbatim>\<open>encodeGIF\<close> returns the empty-palette error and the
  sink holds what it held before the call: neither the header nor anything else has
  been written.
\<close>

theorem encodeGIF_empty_palette:
  "Palette pm = [] \<Longrightarrow> encodeGIF w pm workers = (Some EmptyPalette, w)"
  by (simp add: encodeGIF_def)

theorem encodeGIF_empty_palette_witness:
  "Palette empty0 = [] \<and> encodeGIF [1, 2] empty0 4 = (Some EmptyPalette, [1, 2])"
  using encodeGIF_empty_palette [of empty0 "[1, 2]" 4] by (simp add: empty0_def)

text \<open>
  C5. With at least one processor reported, \<^verbatim>\<open>Encode\<close> returns the image-too-large
  error exactly when the width or the height is 65536 or more, and then the sink holds
  what it held before the call; an image whose sides are between 0 and 65535 is
  encoded without error. The width and the height are what \<^verbatim>\<open>Dx()\<close> and \<^verbatim>\<open>Dy()\<close>
  give for the bounds, differences in 64 bits.
\<close>

theorem Encode_too_large_iff:
  assumes "1 \<le> numCPU"
  shows "(fst (Encode numCPU w m opts) = Some ImageTooLarge
            \<longleftrightarrow> 65536 \<le> Dx (Bounds m) \<or> 65536 \<le> Dy (Bounds m)) \<and>
         (65536 \<le> Dx (Bounds m) \<or> 65536 \<le> Dy (Bounds m)
            \<longrightarrow> Encode numCPU w m opts = (Some ImageTooLarge, w)) \<and>
         (0 \<le> Dx (Bounds m) \<and> Dx (Bounds m) \<le> 65535 \<and>
          0 \<le> Dy (Bounds m) \<and> Dy (Bounds m) \<le> 65535
            \<longrightarrow> fst (Encode numCPU w m opts) = None)"
proof -
  have big: "Encode numCPU w m opts = (Some ImageTooLarge, w)"
    if "65536 \<le> Dx (Bounds m) \<or> 65536 \<le> Dy (Bounds m)"
    using that by (simp add: Encode_eq)
  have ok: "fst (Encode numCPU w m opts) = None"
    if "0 \<le> Dx (Bounds m)" "Dx (Bounds m) \<le> 65535" "0 \<le> Dy (Bounds m)" "Dy (Bounds m) \<le> 65535"
    using Encode_ok [OF assms that(1,3), where w = w and opts = opts] that(2,4) by auto
  have neg: "fst (Encode numCPU w m opts) = Some Panic"
    if "Dx (Bounds m) < 0 \<or> Dy (Bounds m) < 0"
      "\<not> (65536 \<le> Dx (Bounds m) \<or> 65536 \<le> Dy (Bounds m))"
    using that by (auto simp: Encode_eq indexBuffer_def NewPaletted_def bindE_def)
  have "fst (Encode numCPU w m opts) \<noteq> Some ImageTooLarge"
    if small: "\<not> (65536 \<le> Dx (Bounds m) \<or> 65536 \<le> Dy (Bounds m))"
  proof (cases "Dx (Bounds m) < 0 \<or> Dy (Bounds m) < 0")
    case True
    then show ?thesis using neg small by simp
  next
    case False
    then show ?thesis using ok small by simp
  qed
  then show ?thesis using big ok by auto
qed

theorem Encode_too_large_iff_witness:
  "(1::int) \<le> 4 \<and> Encode 4 [] (red_image (rect 0 0 65536 1)) None = (Some ImageTooLarge, []) \<and>
   fst (Encode 4 [] (red_image (rect 0 0 65535 1)) None) = None"
  using Encode_too_large_iff [of 4 "[]" "red_image (rect 0 0 65536 1)" None]
    Encode_too_large_iff [of 4 "[]" "red_image (rect 0 0 65535 1)" None]
  by (simp add: red_image_def rect_def Dx_def Dy_def)

text \<open>
  The side of a rectangle from \<open>x = -2\<^sup>6\<^sup>3\<close> to \<open>x = 1\<close> is \<open>-2\<^sup>6\<^sup>3 + 1\<close> in 64
  bits. The size check lets such bounds pass, and \<^verbatim>\<open>image.NewPaletted\<close> panics on
  the negative side.
\<close>

lemma Encode_side_wrapped:
  "Dx (rect (- 9223372036854775808) 0 1 1) = - 9223372036854775807 \<and>
   Encode 4 [] (red_image (rect (- 9223372036854775808) 0 1 1)) None = (Some Panic, [])"
  by (simp add: Encode_eq indexBuffer_def NewPaletted_def bindE_def red_image_def rect_def
        Dx_def Dy_def)
section \<open>The claims about the code size byte and the colour table\<close>

lemma minCodeSize_least:
  "2 \<le> minCodeSize n \<and> minCodeSize n \<le> 8 \<and>
   (minCodeSize n < 8 \<longrightarrow> n \<le> 2 ^ minCodeSize n) \<and>
   (\<forall>v. 2 \<le> v \<and> v < minCodeSize n \<longrightarrow> 2 ^ v < n)"
proof (cases "find (\<lambda>v. n \<le> 2 ^ v) [2..<8]")
  case None
  have "\<not> (\<exists>x. x \<in> set [2..<8] \<and> n \<le> 2 ^ x)"
    using None unfolding find_None_iff .
  then have "\<And>v. 2 \<le> v \<Longrightarrow> v < 8 \<Longrightarrow> 2 ^ v < n"
    by (metis atLeastLessThan_iff set_upt not_le)
  then show ?thesis using None by (simp add: minCodeSize_def)
next
  case (Some v)
  then obtain i where i: "i < length [2..<8]" "n \<le> 2 ^ ([2..<8] ! i)" "v = [2..<8] ! i"
      "\<forall>j<i. \<not> n \<le> 2 ^ ([2..<8] ! j)"
    unfolding find_Some_iff by blast
  have v: "v = 2 + i" "i < 6" using i(1,3) by (simp_all del: upt_rec_numeral)
  have "2 ^ u < n" if "2 \<le> u" "u < v" for u
  proof -
    have "u - 2 < i" using that v by simp
    then have "\<not> n \<le> 2 ^ ([2..<8] ! (u - 2))" using i(4) by blast
    moreover have "[2..<8] ! (u - 2) = u" using that v by (simp del: upt_rec_numeral)
    ultimately show ?thesis by simp
  qed
  moreover have "n \<le> 2 ^ v" using i(2) unfolding i(3) .
  moreover have "minCodeSize n = v" by (simp only: minCodeSize_def Some option.case)
  ultimately show ?thesis using v by simp
qed

lemma paddedPaletteSize_least:
  "(\<exists>k\<le>8. paddedPaletteSize n = 2 ^ k) \<and>
   (n \<le> 256 \<longrightarrow> n \<le> paddedPaletteSize n) \<and>
   (\<forall>k. n \<le> 2 ^ k \<longrightarrow> paddedPaletteSize n \<le> 2 ^ k)"
proof (cases "find (\<lambda>k. n \<le> 2 ^ k) [0..<8]")
  case None
  have "\<not> (\<exists>x. x \<in> set [0..<8] \<and> n \<le> 2 ^ x)"
    using None unfolding find_None_iff .
  then have small: "\<And>k. k < 8 \<Longrightarrow> 2 ^ k < n"
    by (metis atLeastLessThan_iff set_upt not_le zero_le)
  have P: "paddedPaletteSize n = 2 ^ 8" by (simp only: paddedPaletteSize_def None option.case) simp
  have "paddedPaletteSize n \<le> 2 ^ k" if "n \<le> 2 ^ k" for k
  proof -
    have "\<not> k < 8" using small [of k] that by auto
    then have "(2::nat) ^ 8 \<le> 2 ^ k" by (intro power_increasing) auto
    then show ?thesis using P by simp
  qed
  moreover have "\<exists>k\<le>8. paddedPaletteSize n = 2 ^ k" using P by blast
  ultimately show ?thesis using P by simp
next
  case (Some v)
  then obtain i where i: "i < length [0..<8]" "n \<le> 2 ^ ([0..<8] ! i)" "v = [0..<8] ! i"
      "\<forall>j<i. \<not> n \<le> 2 ^ ([0..<8] ! j)"
    unfolding find_Some_iff by blast
  have v: "v = i" "i < 8" using i(1,3) by (simp_all del: upt_rec_numeral)
  have P: "paddedPaletteSize n = 2 ^ v" by (simp only: paddedPaletteSize_def Some option.case)
  have nv: "n \<le> 2 ^ v" using i(2) unfolding i(3) .
  have "paddedPaletteSize n \<le> 2 ^ k" if "n \<le> 2 ^ k" for k
  proof -
    have "\<not> k < v"
    proof
      assume "k < v"
      then have "\<not> n \<le> 2 ^ ([0..<8] ! k)" using i(4) v by blast
      moreover have "[0..<8] ! k = k" using \<open>k < v\<close> v by (simp del: upt_rec_numeral)
      ultimately show False using that by simp
    qed
    then have "(2::nat) ^ v \<le> 2 ^ k" by (intro power_increasing) auto
    then show ?thesis using P by simp
  qed
  moreover have "\<exists>k\<le>8. paddedPaletteSize n = 2 ^ k" using P v by auto
  moreover have "n \<le> paddedPaletteSize n" using P nv by simp
  ultimately show ?thesis by simp
qed

lemma length_concat_entries [simp]:
  "length (concat (map (table_entry p) [0..<P])) = 3 * P"
  by (induction P) auto

lemma snd_encodeGIF_head:
  "Palette pm \<noteq> [] \<Longrightarrow> snd (encodeGIF_head pm) = int (minCodeSize (length (Palette pm)))"
  by (simp add: encodeGIF_head_def Let_def litWidth_minCodeSize)

lemma length_writeUint16 [simp]: "length (writeUint16 w v) = length w + 2"
  by (simp add: writeUint16_def)

text \<open>
  C6. Whenever \<^verbatim>\<open>encodeGIF\<close> succeeds, the byte it writes after the image descriptor
  (13 bytes of signature and screen descriptor, the colour table of three bytes per
  entry, 10 bytes of image descriptor) is \<open>minCodeSize\<close> of the palette length: a value
  from 2 to 8; when below 8, its power of two reaches the palette length; no smaller
  value from 2 on does. For 216 colours it is 8.
\<close>

theorem min_code_size_byte:
  assumes "encodeGIF w pm workers = (None, out)"
  shows "out ! (length w + 23 + 3 * paddedPaletteSize (length (Palette pm)))
           = of_nat (minCodeSize (length (Palette pm))) \<and>
         2 \<le> minCodeSize (length (Palette pm)) \<and> minCodeSize (length (Palette pm)) \<le> 8 \<and>
         (minCodeSize (length (Palette pm)) < 8
            \<longrightarrow> length (Palette pm) \<le> 2 ^ minCodeSize (length (Palette pm))) \<and>
         (\<forall>v. 2 \<le> v \<and> v < minCodeSize (length (Palette pm)) \<longrightarrow> 2 ^ v < length (Palette pm)) \<and>
         minCodeSize 216 = 8"
proof -
  obtain data where ne: "Palette pm \<noteq> []"
    and out: "out = w @ fst (encodeGIF_head pm) @ data @ [0x00, 0x3B]"
    using encodeGIF_out [OF assms] by blast
  let ?P = "paddedPaletteSize (length (Palette pm))"
  define pre where "pre = [0x47, 0x49, 0x46, 0x38, 0x39, 0x61] @
    writeUint16 [] (word_of_int (Dx (Rect pm))) @ writeUint16 [] (word_of_int (Dy (Rect pm))) @
    [0x80 OR word_of_int (log2 (int ?P)), 0x00, 0x00] @
    concat (map (table_entry (Palette pm)) [0..<?P]) @
    [0x2C, 0x00, 0x00, 0x00, 0x00] @
    writeUint16 [] (word_of_int (Dx (Rect pm))) @ writeUint16 [] (word_of_int (Dy (Rect pm))) @
    [0x00 :: u8]"
  have head: "fst (encodeGIF_head pm) = pre @ [word_of_int (snd (encodeGIF_head pm))]"
    by (subst encodeGIF_head_eq) (simp add: pre_def)
  have len: "length (w @ pre) = length w + 23 + 3 * ?P" by (simp add: pre_def)
  have "out = (w @ pre) @ word_of_int (snd (encodeGIF_head pm)) # data @ [0x00, 0x3B]"
    by (simp add: out head)
  then have "out ! (length w + 23 + 3 * ?P) = word_of_int (snd (encodeGIF_head pm))"
    unfolding len [symmetric] by (simp only: nth_append_length)
  then have "out ! (length w + 23 + 3 * ?P) = of_nat (minCodeSize (length (Palette pm)))"
    by (simp add: snd_encodeGIF_head [OF ne])
  moreover have "minCodeSize 216 = 8" by (simp add: minCodeSize_eq)
  ultimately show ?thesis
    using minCodeSize_least [of "length (Palette pm)"] by simp
qed

lemma encodeGIF_empty3: "encodeGIF [] empty3 1 = (None, empty3_gif)"
  unfolding empty3_gif_def by code_simp

theorem min_code_size_byte_witness:
  "encodeGIF [] empty3 1 = (None, empty3_gif) \<and> empty3_gif ! 35 = 2"
  using min_code_size_byte [OF encodeGIF_empty3] encodeGIF_empty3
  by (simp add: empty3_gif_def)

text \<open>
  C7. Whenever \<^verbatim>\<open>encodeGIF\<close> succeeds, the bytes after the 13 bytes of signature and
  screen descriptor are \<open>paddedPaletteSize\<close> entries of three bytes, followed by the
  image separator 0x2C: entry \<open>i\<close> is the red, green and blue of palette colour \<open>i\<close>
  converted to non-premultiplied 8-bit form, and three zero bytes from the palette
  length on. The padded size is a power of two, at most 256, not above any power of
  two that reaches the palette length, and it reaches the palette length itself unless
  that exceeds 256. For 216 colours it is 256.
\<close>

theorem global_color_table:
  assumes "encodeGIF w pm workers = (None, out)"
  shows "(\<forall>i<paddedPaletteSize (length (Palette pm)).
            take 3 (drop (length w + 13 + 3 * i) out) =
              (if i < length (Palette pm)
               then (case nrgbaModel (Palette pm ! i) of (r, g, b, a) \<Rightarrow> [r, g, b])
               else [0, 0, 0])) \<and>
         out ! (length w + 13 + 3 * paddedPaletteSize (length (Palette pm))) = 0x2C \<and>
         (\<exists>k\<le>8. paddedPaletteSize (length (Palette pm)) = 2 ^ k) \<and>
         (length (Palette pm) \<le> 256 \<longrightarrow> length (Palette pm) \<le> paddedPaletteSize (length (Palette pm))) \<and>
         (\<forall>k. length (Palette pm) \<le> 2 ^ k \<longrightarrow> paddedPaletteSize (length (Palette pm)) \<le> 2 ^ k) \<and>
         paddedPaletteSize 216 = 256"
proof -
  obtain data where out: "out = w @ fst (encodeGIF_head pm) @ data @ [0x00, 0x3B]"
    using encodeGIF_out [OF assms] by blast
  let ?P = "paddedPaletteSize (length (Palette pm))"
  define pre where "pre = w @ [0x47, 0x49, 0x46, 0x38, 0x39, 0x61] @
    writeUint16 [] (word_of_int (Dx (Rect pm))) @ writeUint16 [] (word_of_int (Dy (Rect pm))) @
    [0x80 OR word_of_int (log2 (int ?P)), 0x00, 0x00 :: u8]"
  define post where "post = [0x00, 0x00, 0x00, 0x00] @
    writeUint16 [] (word_of_int (Dx (Rect pm))) @ writeUint16 [] (word_of_int (Dy (Rect pm))) @
    [0x00, word_of_int (snd (encodeGIF_head pm))] @ data @ [0x00, 0x3B :: u8]"
  let ?table = "concat (map (table_entry (Palette pm)) [0..<?P])"
  have o: "out = pre @ ?table @ 0x2C # post"
    unfolding out by (subst encodeGIF_head_eq) (simp add: pre_def post_def)
  have lpre: "length pre = length w + 13" by (simp add: pre_def)
  have entry: "take 3 (drop (length w + 13 + 3 * i) out) = table_entry (Palette pm) i"
    if "i < ?P" for i
  proof -
    have "drop (length w + 13 + 3 * i) out = drop (3 * i) (?table @ 0x2C # post)"
      unfolding o lpre [symmetric] by simp
    then show ?thesis
      using concat_entries_nth [of "table_entry (Palette pm)" i ?P "0x2C # post"] that by simp
  qed
  have "out = (pre @ ?table) @ 0x2C # post" by (simp add: o)
  moreover have "length (pre @ ?table) = length w + 13 + 3 * ?P" by (simp add: lpre)
  ultimately have sep: "out ! (length w + 13 + 3 * ?P) = 0x2C"
    by (metis nth_append_length)
  have "paddedPaletteSize 216 = 256" by (simp add: paddedPaletteSize_eq)
  then show ?thesis
    using entry sep paddedPaletteSize_least [of "length (Palette pm)"]
    by (simp add: table_entry_def)
qed


theorem global_color_table_witness:
  "encodeGIF [] empty3 1 = (None, empty3_gif) \<and>
   take 3 (drop 13 empty3_gif) = [255, 0, 0] \<and> take 3 (drop 22 empty3_gif) = [0, 0, 0] \<and>
   empty3_gif ! 25 = 0x2C"
  using global_color_table [OF encodeGIF_empty3] encodeGIF_empty3
  by (simp add: empty3_gif_def)

section \<open>The claims about the quantizer and about worker counts\<close>

lemma unat_high_byte: "unat (high_byte r) = unat (drop_bit 8 r)"
proof -
  have "unat (drop_bit 8 r) = unat r div 256" by (simp add: drop_bit_eq_div unat_div)
  moreover have "unat r < 65536" using unsigned_less [of r, where 'a = nat] by simp
  ultimately have "unat (drop_bit 8 r) < 256" by simp
  then show ?thesis
    by (simp add: high_byte_def unsigned_ucast_eq take_bit_eq_mod)
qed

lemma unat_high_byte_ucast:
  fixes r :: u32
  shows "unat (high_byte (ucast r)) = unat (drop_bit 8 r AND 0xff)"
proof -
  have a: "unat (drop_bit 8 r AND 0xff) = unat r div 256 mod 256"
  proof -
    have "(0xff :: u32) = mask 8" by (simp add: mask_eq_exp_minus_1)
    then have "drop_bit 8 r AND 0xff = take_bit 8 (drop_bit 8 r)"
      by (simp add: take_bit_eq_mask)
    then show ?thesis
      by (simp add: drop_bit_eq_div take_bit_eq_mod unat_div unat_mod)
  qed
  have b: "unat (high_byte (ucast r :: u16)) = unat r mod 65536 div 256"
    by (simp add: unat_high_byte drop_bit_eq_div unat_div unsigned_ucast_eq take_bit_eq_mod)
  have "unat r mod 65536 div 256 = unat r div 256 mod 256"
    using div_mult2_eq mod_mult2_eq [of "unat r" 256 256] by simp
  then show ?thesis using a b by simp
qed

lemma level_range: "0 \<le> level v \<and> level v \<le> 5"
proof -
  have "list_all (\<lambda>l. 0 \<le> l \<and> l \<le> 5) FastGifLut"
    by (simp add: FastGifLut_def)
  moreover have "length FastGifLut = 256" by (simp add: FastGifLut_def)
  moreover have "unat v < 256" using unsigned_less [of v, where 'a = nat] by simp
  ultimately show ?thesis
    by (simp add: level_def list_all_length)
qed

lemma index64_level:
  "index64 (r, g, b, a) =
     word_of_int (36 * level (high_byte r) + 6 * level (high_byte g) + level (high_byte b))"
  by (simp add: index64_def level_def unat_high_byte)

lemma indexGeneric_level:
  "color_RGBA c = (r, g, b, a) \<Longrightarrow>
   indexGeneric c =
     word_of_int (36 * level (high_byte (ucast r)) + 6 * level (high_byte (ucast g))
                  + level (high_byte (ucast b)))"
  by (simp add: indexGeneric_def level_def unat_high_byte_ucast)

lemma uint_index:
  "uint (word_of_int (36 * level v1 + 6 * level v2 + level v3) :: u8)
   = 36 * level v1 + 6 * level v2 + level v3"
proof -
  have "0 \<le> 36 * level v1 + 6 * level v2 + level v3"
       "36 * level v1 + 6 * level v2 + level v3 < 256"
    using level_range [of v1] level_range [of v2] level_range [of v3] by auto
  then show ?thesis
    by (simp only: uint_word_of_int) simp
qed

lemma indexBuffer_Inr:
  assumes "indexBuffer m workers = Inr pm" "1 \<le> workers"
  shows "wf_paletted pm \<and> Rect pm = Bounds m \<and> Palette pm = WebSafe"
proof -
  have "0 \<le> Dx (Bounds m) \<and> 0 \<le> Dy (Bounds m)"
    using assms(1) by (auto simp: indexBuffer_def NewPaletted_def bindE_def split: if_splits)
  then show ?thesis
    using indexBuffer_ok [OF assms(2), of m] assms(1) by auto
qed

lemma encodeGIF_single:
  assumes "wf_paletted pm" "Palette pm = WebSafe" "1 \<le> workers"
    "\<not> takesParallel workers (Dy (Rect pm))" "lzwBlocks 8 (Pix pm) = Inr blocks"
  shows "encodeGIF w pm workers = (None, w @ fst (encodeGIF_head pm) @ blocks @ [0x00, 0x3B])"
proof -
  obtain bw lw where h: "encodeGIF_head pm = (bw, lw)" by (cases "encodeGIF_head pm")
  have "lw = 8"
    using h by (simp add: encodeGIF_head_WebSafe [OF assms(2)])
  moreover have "writeLZWData bw pm 8 workers = Inr (bw @ blocks)"
    using writeLZWData_single [OF assms(1,3), of bw 8] assms(4,5)
    by (simp add: takesParallel_def bindE_def)
  ultimately show ?thesis
    using assms(2) by (simp add: encodeGIF_def h length_WebSafe)
qed

lemma encodeGIF_parallel:
  assumes "wf_paletted pm" "Palette pm = WebSafe" "1 \<le> workers"
    "takesParallel workers (Dy (Rect pm))"
    "mapM (\<lambda>r. lzwBlocks 8 (strip_of pm r)) (rowRanges 0 (Dy (Rect pm)) workers) = Inr chunks"
  shows "encodeGIF w pm workers
         = (None, w @ fst (encodeGIF_head pm) @ concat chunks @ [0x00, 0x3B])"
proof -
  obtain bw lw where h: "encodeGIF_head pm = (bw, lw)" by (cases "encodeGIF_head pm")
  have "lw = 8"
    using h by (simp add: encodeGIF_head_WebSafe [OF assms(2)])
  moreover have "writeLZWData bw pm 8 workers = Inr (bw @ concat chunks)"
    using writeParallelLZW_eq [OF assms(1,3), of bw 8] assms(4,5)
    by (simp add: writeLZWData_def Let_def takesParallel_def bindE_def)
  ultimately show ?thesis
    using assms(2) by (simp add: encodeGIF_def h length_WebSafe)
qed

text \<open>
  C2, as the code has it. With at least one processor reported, any two settings of
  the worker option give the same index buffer; and they give the same result of
  \<^verbatim>\<open>Encode\<close>, error and bytes, whenever neither of the two worker counts sends
  \<^verbatim>\<open>writeLZWData\<close> to the parallel compressor (a count does when it is above 1 and
  the height is at least four times the count, the product taken in 64 bits).
\<close>

theorem worker_count_independence:
  assumes "1 \<le> numCPU"
  shows "indexBuffer m (workersOf numCPU opts1) = indexBuffer m (workersOf numCPU opts2) \<and>
         (\<not> takesParallel (workersOf numCPU opts1) (Dy (Bounds m)) \<and>
          \<not> takesParallel (workersOf numCPU opts2) (Dy (Bounds m))
            \<longrightarrow> Encode numCPU w m opts1 = Encode numCPU w m opts2)"
proof -
  let ?w1 = "workersOf numCPU opts1" and ?w2 = "workersOf numCPU opts2"
  have w: "1 \<le> ?w1" "1 \<le> ?w2" using assms by (simp_all add: workersOf_pos)
  have ib: "indexBuffer m ?w1 = indexBuffer m ?w2" by (rule indexBuffer_workers [OF w])
  have "Encode numCPU w m opts1 = Encode numCPU w m opts2"
    if np: "\<not> takesParallel ?w1 (Dy (Bounds m))" "\<not> takesParallel ?w2 (Dy (Bounds m))"
  proof (cases "indexBuffer m ?w1")
    case (Inl e)
    then show ?thesis using ib by (simp add: Encode_eq)
  next
    case (Inr pm)
    note pm = indexBuffer_Inr [OF Inr w(1)]
    have wf: "wf_paletted (atOrigin pm)" "Palette (atOrigin pm) = WebSafe"
      using pm by (simp_all add: wf_atOrigin)
    have dy: "Dy (Rect (atOrigin pm)) = Dy (Bounds m)" using pm by simp
    obtain blocks where b: "lzwBlocks 8 (Pix (atOrigin pm)) = Inr blocks"
      using lzwBlocks_8 by blast
    have "encodeGIF w (atOrigin pm) ?w1 = encodeGIF w (atOrigin pm) ?w2"
      using encodeGIF_single [OF wf w(1) _ b, of w] encodeGIF_single [OF wf w(2) _ b, of w] np pm
      by simp
    then show ?thesis using Inr ib by (simp add: Encode_eq)
  qed
  then show ?thesis using ib by simp
qed

lemma indexGeneric_black: "indexGeneric (RGBA 0 0 0 255) = 0"
  by (simp add: indexGeneric_def spread8_def FastGifLut_def)

lemma indexBuffer_black:
  "indexBuffer (black_image (rect 0 0 1 8)) 1 =
     Inr \<lparr>Pix = [0, 0, 0, 0, 0, 0, 0, 0], Stride = 1, Rect = rect 0 0 1 8, Palette = WebSafe\<rparr>"
proof -
  have ys: "sint (py (rmin (Bounds (black_image (rect 0 0 1 8)))))
      \<le> sint (py (rmax (Bounds (black_image (rect 0 0 1 8)))))"
    by (simp add: black_image_def rect_def)
  have px: "pixelIndex (black_image r) x y = 0" for r x y
    by (simp add: pixelIndex_def black_image_def indexGeneric_black)
  show ?thesis
    unfolding indexBuffer_def mapColors_rows [OF order_refl ys] px
    by (simp add: NewPaletted_def black_image_def rect_def Dx_def Dy_def bindE_def upto_rec1
          SetColorIndex_def point_In_def PixOffset_def Let_def numeral_eq_Suc)
qed


lemma indexBuffer_black_any:
  "1 \<le> w \<Longrightarrow> indexBuffer (black_image (rect 0 0 1 8)) w =
     Inr \<lparr>Pix = [0, 0, 0, 0, 0, 0, 0, 0], Stride = 1, Rect = rect 0 0 1 8, Palette = WebSafe\<rparr>"
  using indexBuffer_workers [of w 1 "black_image (rect 0 0 1 8)"] indexBuffer_black by simp

lemma sub_blocks_small:
  "length d < 255 \<Longrightarrow> d \<noteq> [] \<Longrightarrow> sub_blocks d = of_nat (length d) # d"
  by (simp add: sub_blocks_def full_blocks_short tail_bytes_short)

lemma lzwBlocks_empty: "lzwBlocks 8 [] = Inr [3, 0, 3, 2]"
  by code_simp

lemma lzwBlocks_zeros8: "lzwBlocks 8 [0, 0, 0, 0, 0, 0, 0, 0] = Inr [7, 0, 1, 8, 28, 40, 48, 32]"
  by code_simp

lemma lzwBlocks_zeros4: "lzwBlocks 8 [0, 0, 0, 0] = Inr [6, 0, 1, 8, 4, 16, 16]"
  by code_simp

lemma rowRanges_0_8_2: "rowRanges 0 8 2 = [(0, 4), (4, 8)]"
  by (simp add: rowRanges_explicit rowsPer_def effWorkers_def upto_rec1)

lemma wf_zeros8:
  "wf_paletted \<lparr>Pix = [0, 0, 0, 0, 0, 0, 0, 0], Stride = 1, Rect = rect 0 0 1 8, Palette = WebSafe\<rparr>"
  by (simp add: wf_paletted_def rect_def Dx_def Dy_def)

lemma atOrigin_rect0: "rmin (Rect pm) = \<lparr>px = 0, py = 0\<rparr> \<Longrightarrow> atOrigin pm = pm"
  by (simp add: atOrigin_def)

text \<open>
  The claim C2 as written fails: a black image of one column and eight rows encoded
  with one worker and with two workers gives two different bitstreams, because with
  two workers each half of the rows becomes an LZW stream of its own.
\<close>

theorem bitstreams_differ_1_2:
  "Encode 1 [] (black_image (rect 0 0 1 8)) (Some \<lparr>Workers = 1\<rparr>)
   \<noteq> Encode 1 [] (black_image (rect 0 0 1 8)) (Some \<lparr>Workers = 2\<rparr>)"
proof -
  let ?pm = "\<lparr>Pix = [0, 0, 0, 0, 0, 0, 0, 0], Stride = 1, Rect = rect 0 0 1 8, Palette = WebSafe\<rparr>"
  let ?m = "black_image (rect 0 0 1 8)"
  have o: "atOrigin ?pm = ?pm" by (rule atOrigin_rect0) (simp add: rect_def)
  have dy: "Dy (Rect ?pm) = 8" by (simp add: rect_def Dy_def)
  have sz: "\<not> (2 ^ 16 \<le> Dx (Bounds ?m) \<or> 2 ^ 16 \<le> Dy (Bounds ?m))"
    by (simp add: black_image_def rect_def Dx_def Dy_def)
  have e1: "encodeGIF [] ?pm 1
      = (None, [] @ fst (encodeGIF_head ?pm) @ [7, 0, 1, 8, 28, 40, 48, 32] @ [0x00, 0x3B])"
    by (rule encodeGIF_single [OF wf_zeros8])
       (simp_all add: takesParallel_def wrap64_def lzwBlocks_zeros8)
  have strips: "mapM (\<lambda>r. lzwBlocks 8 (strip_of ?pm r)) (rowRanges 0 (Dy (Rect ?pm)) 2)
      = Inr [[6, 0, 1, 8, 4, 16, 16], [6, 0, 1, 8, 4, 16, 16]]"
    unfolding dy rowRanges_0_8_2
    by (simp add: strip_of_def rect_def Dx_def lzwBlocks_zeros4)
  have e2: "encodeGIF [] ?pm 2
      = (None, [] @ fst (encodeGIF_head ?pm)
           @ concat [[6, 0, 1, 8, 4, 16, 16], [6, 0, 1, 8, 4, 16, 16]] @ [0x00, 0x3B])"
    by (rule encodeGIF_parallel [OF wf_zeros8 _ _ _ strips])
       (simp_all add: takesParallel_def wrap64_def rect_def Dy_def)
  have "Encode 1 [] ?m (Some \<lparr>Workers = 1\<rparr>) = encodeGIF [] ?pm 1"
    using sz by (simp add: Encode_eq workersOf_def indexBuffer_black_any o)
  moreover have "Encode 1 [] ?m (Some \<lparr>Workers = 2\<rparr>) = encodeGIF [] ?pm 2"
    using sz by (simp add: Encode_eq workersOf_def indexBuffer_black_any o)
  ultimately show ?thesis
    unfolding e1 e2 by simp
qed


theorem worker_count_independence_witness:
  "(1::int) \<le> 4 \<and>
   Encode 4 [] (black_image (rect 0 0 1 8)) (Some \<lparr>Workers = 1\<rparr>)
     = Encode 4 [] (black_image (rect 0 0 1 8)) None"
  using worker_count_independence [of 4 "black_image (rect 0 0 1 8)" "Some \<lparr>Workers = 1\<rparr>"
      None "[]"]
  by (simp add: takesParallel_def wrap64_def workersOf_def black_image_def rect_def Dy_def)

text \<open>
  With \<open>2\<^sup>6\<^sup>2\<close> workers the product \<^verbatim>\<open>workers*4\<close> is 0 in 64 bits. The image of one
  column and eight rows then goes to the parallel compressor, which hands out one row
  to each of eight workers: the image data are eight streams of five bytes, where one
  worker gives one stream of eight bytes.
\<close>

lemma lzwBlocks_zero1: "lzwBlocks 8 [0] = Inr [4, 0, 1, 4, 4]"
  by code_simp

lemma rowRanges_0_8_wrapped:
  "rowRanges 0 8 4611686018427387904
   = [(0, 1), (1, 2), (2, 3), (3, 4), (4, 5), (5, 6), (6, 7), (7, 8)]"
  by (simp add: rowRanges_explicit rowsPer_def effWorkers_def upto_rec1)

lemma Encode_workers_wrapped:
  "takesParallel 4611686018427387904 8 \<and>
   (\<exists>head. length head = 792 \<and>
      Encode 1 [] (black_image (rect 0 0 1 8)) (Some \<lparr>Workers = 4611686018427387904\<rparr>)
        = (None, head @ concat (replicate 8 [4, 0, 1, 4, 4]) @ [0x00, 0x3B]) \<and>
      Encode 1 [] (black_image (rect 0 0 1 8)) (Some \<lparr>Workers = 1\<rparr>)
        = (None, head @ [7, 0, 1, 8, 28, 40, 48, 32] @ [0x00, 0x3B]))"
proof -
  let ?pm = "\<lparr>Pix = [0, 0, 0, 0, 0, 0, 0, 0], Stride = 1, Rect = rect 0 0 1 8, Palette = WebSafe\<rparr>"
  let ?m = "black_image (rect 0 0 1 8)"
  let ?n = "4611686018427387904 :: int"
  have o: "atOrigin ?pm = ?pm" by (rule atOrigin_rect0) (simp add: rect_def)
  have dy: "Dy (Rect ?pm) = 8" by (simp add: rect_def Dy_def)
  have sz: "\<not> (2 ^ 16 \<le> Dx (Bounds ?m) \<or> 2 ^ 16 \<le> Dy (Bounds ?m))"
    by (simp add: black_image_def rect_def Dx_def Dy_def)
  have tp: "takesParallel ?n 8" by (simp add: takesParallel_def wrap64_def)
  have len: "length (fst (encodeGIF_head ?pm)) = 792"
    using length_writeColorTable [of 256 WebSafe]
    by (simp add: encodeGIF_head_WebSafe writeUint16_def)
  have e1: "encodeGIF [] ?pm 1
      = (None, [] @ fst (encodeGIF_head ?pm) @ [7, 0, 1, 8, 28, 40, 48, 32] @ [0x00, 0x3B])"
    by (rule encodeGIF_single [OF wf_zeros8])
       (simp_all add: takesParallel_def wrap64_def lzwBlocks_zeros8)
  have strips: "mapM (\<lambda>r. lzwBlocks 8 (strip_of ?pm r)) (rowRanges 0 (Dy (Rect ?pm)) ?n)
      = Inr (replicate 8 [4, 0, 1, 4, 4])"
    unfolding dy rowRanges_0_8_wrapped
    by (simp add: strip_of_def rect_def Dx_def lzwBlocks_zero1 numeral_eq_Suc)
  have e2: "encodeGIF [] ?pm ?n
      = (None, [] @ fst (encodeGIF_head ?pm) @ concat (replicate 8 [4, 0, 1, 4, 4]) @ [0x00, 0x3B])"
    by (rule encodeGIF_parallel [OF wf_zeros8 _ _ _ strips])
       (simp_all add: takesParallel_def wrap64_def rect_def Dy_def)
  have "Encode 1 [] ?m (Some \<lparr>Workers = 1\<rparr>) = encodeGIF [] ?pm 1"
    using sz by (simp add: Encode_eq workersOf_def indexBuffer_black_any o)
  moreover have "Encode 1 [] ?m (Some \<lparr>Workers = ?n\<rparr>) = encodeGIF [] ?pm ?n"
    using sz by (simp add: Encode_eq workersOf_def indexBuffer_black_any o)
  ultimately show ?thesis
    using tp len e1 e2 by (intro conjI exI [of _ "fst (encodeGIF_head ?pm)"]) simp_all
qed

text \<open>
  C4. For an image whose bounds have no negative side and at least one worker, the
  quantizer fills an index buffer over the bounds of the image in which, at every
  point \<open>(x, y)\<close> of the bounds, the index read as a number is \<open>36 * level R + 6 *
  level G + level B\<close>, the levels taken from the level table at the high byte of each
  16-bit channel: of the sample \<^verbatim>\<open>RGBA64At(x, y)\<close> on the 16-bit path, of what
  \<^verbatim>\<open>At(x, y).RGBA()\<close> returns on the generic path. And for every colour the generic
  path computes the index the 16-bit path computes from the colour's 16-bit channels.
\<close>

theorem quantizer_indices:
  assumes "1 \<le> workers" "0 \<le> Dx (Bounds m)" "0 \<le> Dy (Bounds m)"
  shows "(\<exists>pm. indexBuffer m workers = Inr pm \<and> Rect pm = Bounds m \<and>
           (\<forall>x y. point_In x y (Bounds m) \<longrightarrow>
              (case RGBA64At m of
                 Some i64 \<Rightarrow> (case i64 x y of (r, g, b, a) \<Rightarrow>
                   uint (ColorIndexAt pm x y)
                     = 36 * level (high_byte r) + 6 * level (high_byte g) + level (high_byte b))
               | None \<Rightarrow> (case color_RGBA (At m x y) of (r, g, b, a) \<Rightarrow>
                   uint (ColorIndexAt pm x y)
                     = 36 * level (high_byte (ucast r)) + 6 * level (high_byte (ucast g))
                       + level (high_byte (ucast b)))))) \<and>
         (\<forall>c. indexGeneric c
                = index64 (case color_RGBA c of (r, g, b, a) \<Rightarrow> (ucast r, ucast g, ucast b, ucast a)))"
proof -
  obtain pm where pm: "indexBuffer m workers = Inr pm" "Rect pm = Bounds m"
      "\<And>x y. point_In x y (Bounds m) \<Longrightarrow> ColorIndexAt pm x y = pixelIndex m x y"
    using indexBuffer_ok [OF assms] by blast
  have pt: "case RGBA64At m of
          Some i64 \<Rightarrow> (case i64 x y of (r, g, b, a) \<Rightarrow>
            uint (ColorIndexAt pm x y)
              = 36 * level (high_byte r) + 6 * level (high_byte g) + level (high_byte b))
        | None \<Rightarrow> (case color_RGBA (At m x y) of (r, g, b, a) \<Rightarrow>
            uint (ColorIndexAt pm x y)
              = 36 * level (high_byte (ucast r)) + 6 * level (high_byte (ucast g))
                + level (high_byte (ucast b)))"
    if "point_In x y (Bounds m)" for x y
  proof (cases "RGBA64At m")
    case None
    obtain r g b a where c: "color_RGBA (At m x y) = (r, g, b, a)"
      by (cases "color_RGBA (At m x y)")
    have "uint (ColorIndexAt pm x y)
        = 36 * level (high_byte (ucast r)) + 6 * level (high_byte (ucast g))
          + level (high_byte (ucast b))"
      by (simp only: pm(3) [OF that] pixelIndex_def None option.case
            indexGeneric_level [OF c] uint_index)
    then show ?thesis by (simp only: None option.case c prod.case)
  next
    case (Some i64)
    obtain r g b a where c: "i64 x y = (r, g, b, a)" by (cases "i64 x y")
    have "uint (ColorIndexAt pm x y)
        = 36 * level (high_byte r) + 6 * level (high_byte g) + level (high_byte b)"
      by (simp only: pm(3) [OF that] pixelIndex_def Some option.case c index64_level uint_index)
    then show ?thesis by (simp only: Some option.case c prod.case)
  qed
  have A: "\<exists>pm. indexBuffer m workers = Inr pm \<and> Rect pm = Bounds m \<and>
           (\<forall>x y. point_In x y (Bounds m) \<longrightarrow>
              (case RGBA64At m of
                 Some i64 \<Rightarrow> (case i64 x y of (r, g, b, a) \<Rightarrow>
                   uint (ColorIndexAt pm x y)
                     = 36 * level (high_byte r) + 6 * level (high_byte g) + level (high_byte b))
               | None \<Rightarrow> (case color_RGBA (At m x y) of (r, g, b, a) \<Rightarrow>
                   uint (ColorIndexAt pm x y)
                     = 36 * level (high_byte (ucast r)) + 6 * level (high_byte (ucast g))
                       + level (high_byte (ucast b)))))"
    using pt pm(1,2) by blast
  have B: "indexGeneric c
      = index64 (case color_RGBA c of (r, g, b, a) \<Rightarrow> (ucast r, ucast g, ucast b, ucast a))" for c
  proof -
    obtain r g b a where c: "color_RGBA c = (r, g, b, a)" by (cases "color_RGBA c")
    show ?thesis
      by (simp only: c prod.case indexGeneric_level [OF c] index64_level)
  qed
  show ?thesis using A B by blast
qed

lemma level_255: "level 255 = 5" and level_0: "level 0 = 0"
  by (simp_all add: level_def FastGifLut_def)

theorem quantizer_indices_witness:
  "(1::int) \<le> 4 \<and> 0 \<le> Dx (Bounds (red_image (rect 0 0 1 1))) \<and>
   0 \<le> Dy (Bounds (red_image (rect 0 0 1 1))) \<and>
   (\<exists>pm. indexBuffer (red_image (rect 0 0 1 1)) 4 = Inr pm \<and> uint (ColorIndexAt pm 0 0) = 180)"
proof -
  have h: "(1::int) \<le> 4" "0 \<le> Dx (Bounds (red_image (rect 0 0 1 1)))"
    "0 \<le> Dy (Bounds (red_image (rect 0 0 1 1)))"
    by (simp_all add: red_image_def rect_def Dx_def Dy_def)
  have hb: "high_byte (ucast (spread8 255)) = 255" "high_byte (ucast (spread8 0)) = 0"
    by (simp_all add: high_byte_def spread8_def)
  obtain pm where pm: "indexBuffer (red_image (rect 0 0 1 1)) 4 = Inr pm"
    "\<forall>x y. point_In x y (Bounds (red_image (rect 0 0 1 1))) \<longrightarrow>
       (case RGBA64At (red_image (rect 0 0 1 1)) of
          Some i64 \<Rightarrow> (case i64 x y of (r, g, b, a) \<Rightarrow>
            uint (ColorIndexAt pm x y)
              = 36 * level (high_byte r) + 6 * level (high_byte g) + level (high_byte b))
        | None \<Rightarrow> (case color_RGBA (At (red_image (rect 0 0 1 1)) x y) of (r, g, b, a) \<Rightarrow>
            uint (ColorIndexAt pm x y)
              = 36 * level (high_byte (ucast r)) + 6 * level (high_byte (ucast g))
                + level (high_byte (ucast b))))"
    using quantizer_indices [OF h] by blast
  have "point_In 0 0 (Bounds (red_image (rect 0 0 1 1)))"
    by (simp add: point_In_def red_image_def rect_def)
  then have "uint (ColorIndexAt pm 0 0) = 180"
    using pm(2) by (simp add: red_image_def hb level_255 level_0)
  then show ?thesis using h pm(1) by blast
qed

section \<open>Images without pixels\<close>

lemma takesParallel_0:
  assumes "1 \<le> workers" "workers < 2 ^ 61"
  shows "\<not> takesParallel workers 0"
proof -
  have "wrap64 (workers * 4) = workers * 4"
    using assms by (intro wrap64_id) simp_all
  then show ?thesis using assms(1) by (simp add: takesParallel_def)
qed

lemma writeUint16_0: "writeUint16 [] (word_of_int 0) = [0, 0]"
  by (simp add: writeUint16_def)

lemma zero_pixels_Pix:
  assumes "wf_paletted pm" "Dx (Rect pm) = 0 \<or> Dy (Rect pm) = 0"
  shows "Pix pm = []"
  using assms by (auto simp: wf_paletted_def)

text \<open>
  C10, as the code has it. With at least one processor reported, an image without
  pixels whose sides are between 0 and 65535 is encoded without error whenever the
  worker count does not send the data to the parallel compressor. The sink then
  receives, after what it held: the signature; the width and the height as 16-bit
  little-endian numbers (two zero bytes for a side of 0); the packed byte 0x87 and
  two zero bytes; the 256 entries of the colour table; the image descriptor; the
  code size byte 8; the one sub-block 03 00 03 02, which is what the compressor
  emits for the empty pixel sequence; the terminator 0x00 and the trailer 0x3B.
  (For a height of 0 the parallel compressor is out of reach of every worker count
  below \<open>2\<^sup>6\<^sup>1\<close>: lemma \<open>takesParallel_0\<close>.)
\<close>

theorem Encode_zero_pixels:
  assumes "1 \<le> numCPU"
    and "0 \<le> Dx (Bounds m)" "Dx (Bounds m) \<le> 65535" "0 \<le> Dy (Bounds m)" "Dy (Bounds m) \<le> 65535"
    and "Dx (Bounds m) = 0 \<or> Dy (Bounds m) = 0"
    and "\<not> takesParallel (workersOf numCPU opts) (Dy (Bounds m))"
  shows "Encode numCPU w m opts =
           (None, w @ [0x47, 0x49, 0x46, 0x38, 0x39, 0x61] @
              writeUint16 [] (word_of_int (Dx (Bounds m))) @
              writeUint16 [] (word_of_int (Dy (Bounds m))) @
              [0x87, 0x00, 0x00] @ writeColorTable [] WebSafe 256 @
              [0x2C, 0x00, 0x00, 0x00, 0x00] @
              writeUint16 [] (word_of_int (Dx (Bounds m))) @
              writeUint16 [] (word_of_int (Dy (Bounds m))) @
              [0x00, 0x08] @ [0x03, 0x00, 0x03, 0x02] @ [0x00, 0x3B]) \<and>
         length (writeColorTable [] WebSafe 256) = 3 * 256 \<and>
         lzwBlocks 8 [] = Inr [0x03, 0x00, 0x03, 0x02] \<and>
         writeUint16 [] (word_of_int 0) = [0x00, 0x00]"
proof -
  let ?wk = "workersOf numCPU opts"
  have wk: "1 \<le> ?wk" by (rule workersOf_pos [OF assms(1)])
  obtain pm where pm: "indexBuffer m ?wk = Inr pm" "wf_paletted pm" "Rect pm = Bounds m"
      "Palette pm = WebSafe"
    using indexBuffer_ok [OF wk assms(2,4)] by blast
  have wf: "wf_paletted (atOrigin pm)" "Palette (atOrigin pm) = WebSafe"
    using pm by (simp_all add: wf_atOrigin)
  have np: "\<not> takesParallel ?wk (Dy (Rect (atOrigin pm)))"
    using assms(7) pm(3) by simp
  have "Pix pm = []"
    using zero_pixels_Pix [OF pm(2)] assms(6) pm(3) by auto
  then have blocks: "lzwBlocks 8 (Pix (atOrigin pm)) = Inr [0x03, 0x00, 0x03, 0x02]"
    by (simp add: lzwBlocks_empty)
  have "Encode numCPU w m opts = encodeGIF w (atOrigin pm) ?wk"
    using assms(3,5) pm(1) by (simp add: Encode_eq)
  also have "\<dots> = (None, w @ fst (encodeGIF_head (atOrigin pm)) @ [0x03, 0x00, 0x03, 0x02]
                          @ [0x00, 0x3B])"
    by (rule encodeGIF_single [OF wf wk np blocks])
  finally show ?thesis
    using length_writeColorTable [of 256 WebSafe] lzwBlocks_empty writeUint16_0
    by (simp add: encodeGIF_head_WebSafe [OF wf(2)] pm(3))
qed

theorem Encode_zero_pixels_witness:
  "(1::int) \<le> 4 \<and>
   Encode 4 [] (red_image (rect 7 7 12 7)) None =
     (None, [0x47, 0x49, 0x46, 0x38, 0x39, 0x61] @ [0x05, 0x00] @ [0x00, 0x00] @
            [0x87, 0x00, 0x00] @ writeColorTable [] WebSafe 256 @
            [0x2C, 0x00, 0x00, 0x00, 0x00] @ [0x05, 0x00] @ [0x00, 0x00] @
            [0x00, 0x08] @ [0x03, 0x00, 0x03, 0x02] @ [0x00, 0x3B])"
  using Encode_zero_pixels [of 4 "red_image (rect 7 7 12 7)" None "[]"]
  by (simp add: red_image_def rect_def Dx_def Dy_def writeUint16_def takesParallel_def
        workersOf_def wrap64_def)

text \<open>
  The claim C10 as written fails twice. An image 0 wide and 65536 high has no pixels
  and is rejected as too large. An image 0 wide and 8 high encoded with two workers
  goes to the parallel compressor, and its image data is the sub-block of the empty
  pixel sequence twice, once for each strip.
\<close>

theorem zero_pixels_rejected_or_repeated:
  "Dx (Bounds (red_image (rect 0 0 0 65536))) = 0 \<and>
   Encode 4 [] (red_image (rect 0 0 0 65536)) None = (Some ImageTooLarge, []) \<and>
   Dx (Bounds (red_image (rect 0 0 0 8))) = 0 \<and>
   Encode 4 [] (red_image (rect 0 0 0 8)) (Some \<lparr>Workers = 2\<rparr>) =
     (None, [0x47, 0x49, 0x46, 0x38, 0x39, 0x61] @ [0x00, 0x00] @ [0x08, 0x00] @
            [0x87, 0x00, 0x00] @ writeColorTable [] WebSafe 256 @
            [0x2C, 0x00, 0x00, 0x00, 0x00] @ [0x00, 0x00] @ [0x08, 0x00] @
            [0x00, 0x08] @ [0x03, 0x00, 0x03, 0x02] @ [0x03, 0x00, 0x03, 0x02] @ [0x00, 0x3B])"
proof -
  let ?m = "red_image (rect 0 0 0 8)"
  have big: "Encode 4 [] (red_image (rect 0 0 0 65536)) None = (Some ImageTooLarge, [])"
    by (simp add: Encode_eq red_image_def rect_def Dx_def Dy_def)
  have b: "Dx (Bounds ?m) = 0" "Dy (Bounds ?m) = 8"
    by (simp_all add: red_image_def rect_def Dx_def Dy_def)
  obtain pm where pm: "indexBuffer ?m 2 = Inr pm" "wf_paletted pm" "Rect pm = Bounds ?m"
      "Palette pm = WebSafe"
    using indexBuffer_ok [of 2 ?m] b by auto
  have wf: "wf_paletted (atOrigin pm)" "Palette (atOrigin pm) = WebSafe"
    using pm by (simp_all add: wf_atOrigin)
  have d: "Dx (Rect (atOrigin pm)) = 0" "Dy (Rect (atOrigin pm)) = 8"
    using pm(3) b by simp_all
  have strips: "mapM (\<lambda>r. lzwBlocks 8 (strip_of (atOrigin pm) r))
        (rowRanges 0 (Dy (Rect (atOrigin pm))) 2)
      = Inr [[0x03, 0x00, 0x03, 0x02], [0x03, 0x00, 0x03, 0x02]]"
    unfolding d rowRanges_0_8_2
    by (simp add: strip_of_def pm(3) b lzwBlocks_empty)
  have "Encode 4 [] ?m (Some \<lparr>Workers = 2\<rparr>) = encodeGIF [] (atOrigin pm) 2"
    using pm(1) b by (simp add: Encode_eq workersOf_def)
  also have "\<dots> = (None, [] @ fst (encodeGIF_head (atOrigin pm))
        @ concat [[0x03, 0x00, 0x03, 0x02], [0x03, 0x00, 0x03, 0x02]] @ [0x00, 0x3B])"
    by (rule encodeGIF_parallel [OF wf _ _ strips])
       (simp_all add: takesParallel_def wrap64_def pm(3) b)
  finally have "Encode 4 [] ?m (Some \<lparr>Workers = 2\<rparr>) =
     (None, [0x47, 0x49, 0x46, 0x38, 0x39, 0x61] @ [0x00, 0x00] @ [0x08, 0x00] @
            [0x87, 0x00, 0x00] @ writeColorTable [] WebSafe 256 @
            [0x2C, 0x00, 0x00, 0x00, 0x00] @ [0x00, 0x00] @ [0x08, 0x00] @
            [0x00, 0x08] @ [0x03, 0x00, 0x03, 0x02] @ [0x03, 0x00, 0x03, 0x02] @ [0x00, 0x3B])"
    by (simp add: encodeGIF_head_WebSafe [OF wf(2)] pm(3) b writeUint16_def)
  then show ?thesis
    using big b by (simp add: red_image_def rect_def Dx_def)
qed

text \<open>
  With \<open>2\<^sup>6\<^sup>2\<close> workers an image of height 0 goes to the parallel compressor as well
  (\<open>0 \<ge> workers*4\<close> in 64 bits), which has no strip to compress then: the code size
  byte is followed by the terminator, with no image data in between.
\<close>

lemma rowRanges_no_rows: "1 \<le> workers \<Longrightarrow> rowRanges 0 0 workers = []"
  by (simp add: rowRanges_explicit rowsPer_def effWorkers_def)

lemma Encode_zero_height_wrapped:
  "takesParallel 4611686018427387904 0 \<and>
   Encode 4 [] (red_image (rect 0 0 5 0)) (Some \<lparr>Workers = 4611686018427387904\<rparr>) =
     (None, [0x47, 0x49, 0x46, 0x38, 0x39, 0x61] @ [0x05, 0x00] @ [0x00, 0x00] @
            [0x87, 0x00, 0x00] @ writeColorTable [] WebSafe 256 @
            [0x2C, 0x00, 0x00, 0x00, 0x00] @ [0x05, 0x00] @ [0x00, 0x00] @
            [0x00, 0x08] @ [0x00, 0x3B])"
proof -
  let ?m = "red_image (rect 0 0 5 0)"
  let ?n = "4611686018427387904 :: int"
  have tp: "takesParallel ?n 0" by (simp add: takesParallel_def wrap64_def)
  have b: "Dx (Bounds ?m) = 5" "Dy (Bounds ?m) = 0"
    by (simp_all add: red_image_def rect_def Dx_def Dy_def)
  obtain pm where pm: "indexBuffer ?m ?n = Inr pm" "wf_paletted pm" "Rect pm = Bounds ?m"
      "Palette pm = WebSafe"
    using indexBuffer_ok [of ?n ?m] b by auto
  have wf: "wf_paletted (atOrigin pm)" "Palette (atOrigin pm) = WebSafe"
    using pm by (simp_all add: wf_atOrigin)
  have d: "Dx (Rect (atOrigin pm)) = 5" "Dy (Rect (atOrigin pm)) = 0"
    using pm(3) b by simp_all
  have strips: "mapM (\<lambda>r. lzwBlocks 8 (strip_of (atOrigin pm) r))
        (rowRanges 0 (Dy (Rect (atOrigin pm))) ?n) = Inr []"
    unfolding d by (simp add: rowRanges_no_rows)
  have "Encode 4 [] ?m (Some \<lparr>Workers = ?n\<rparr>) = encodeGIF [] (atOrigin pm) ?n"
    using pm(1) b by (simp add: Encode_eq workersOf_def)
  also have "\<dots> = (None, [] @ fst (encodeGIF_head (atOrigin pm)) @ concat [] @ [0x00, 0x3B])"
    by (rule encodeGIF_parallel [OF wf _ _ strips])
       (simp_all add: takesParallel_def wrap64_def pm(3) b)
  finally show ?thesis
    using tp by (simp add: encodeGIF_head_WebSafe [OF wf(2)] pm(3) b writeUint16_def)
qed
section \<open>Decoding what the parallel compressor emits\<close>

lemma wf_column8: "wf_paletted column8"
  by (simp add: wf_paletted_def column8_def rect_def Dx_def Dy_def)

lemma lzwBlocks_1_8:
  "lzwBlocks 8 [1, 2, 3, 4, 5, 6, 7, 8] = Inr [12, 0, 3, 8, 24, 64, 160, 128, 129, 3, 8, 2, 2]"
  by code_simp

lemma lzwBlocks_1_4: "lzwBlocks 8 [1, 2, 3, 4] = Inr [7, 0, 3, 8, 24, 64, 32, 32]"
  by code_simp

lemma lzwBlocks_5_8: "lzwBlocks 8 [5, 6, 7, 8] = Inr [7, 0, 11, 24, 56, 128, 32, 32]"
  by code_simp

lemma decode_single:
  "gif_decode_data 8 [12, 0, 3, 8, 24, 64, 160, 128, 129, 3, 8, 2, 2]
   = Some [1, 2, 3, 4, 5, 6, 7, 8]"
  by code_simp

lemma decode_parallel:
  "gif_decode_data 8 [7, 0, 3, 8, 24, 64, 32, 32, 7, 0, 11, 24, 56, 128, 32, 32]
   = Some [1, 2, 3, 4]"
  by code_simp

text \<open>
  C1 asks that what a decoder recovers from the output of the parallel compressor be
  the pixel sequence it recovers from the single-stream output. The code does not
  deliver this. For the index buffer \<open>column8\<close> (one column, eight rows, the indices
  1 to 8) and code size 8, one worker gives a single stream, which decodes to all
  eight pixels; two workers give the framed streams of rows 0 to 3 and of rows 4 to
  7 one after the other, each closed by its own end-of-information code, and decoding
  ends at the first of them with the four pixels of the first strip.
\<close>

theorem parallel_stream_ends_after_first_strip:
  "rowMajor column8 = [1, 2, 3, 4, 5, 6, 7, 8] \<and>
   writeLZWData [] column8 8 1 = Inr [12, 0, 3, 8, 24, 64, 160, 128, 129, 3, 8, 2, 2] \<and>
   gif_decode_data 8 [12, 0, 3, 8, 24, 64, 160, 128, 129, 3, 8, 2, 2]
     = Some [1, 2, 3, 4, 5, 6, 7, 8] \<and>
   writeLZWData [] column8 8 2
     = Inr [7, 0, 3, 8, 24, 64, 32, 32, 7, 0, 11, 24, 56, 128, 32, 32] \<and>
   gif_decode_data 8 [7, 0, 3, 8, 24, 64, 32, 32, 7, 0, 11, 24, 56, 128, 32, 32]
     = Some [1, 2, 3, 4]"
proof -
  have d: "Dx (Rect column8) = 1" "Dy (Rect column8) = 8"
    by (simp_all add: column8_def rect_def Dx_def Dy_def)
  have pix: "Pix column8 = [1, 2, 3, 4, 5, 6, 7, 8]" by (simp add: column8_def)
  have rm: "rowMajor column8 = [1, 2, 3, 4, 5, 6, 7, 8]"
    unfolding rowMajor_def d pix by (simp add: column8_def upto_rec1)
  have single: "writeLZWData [] column8 8 1
      = Inr [12, 0, 3, 8, 24, 64, 160, 128, 129, 3, 8, 2, 2]"
    using writeLZWData_single [OF wf_column8, of 1 "[]" 8] lzwBlocks_1_8
    by (simp add: bindE_def pix d)
  have strips: "mapM (\<lambda>r. lzwBlocks 8 (strip_of column8 r)) (rowRanges 0 (Dy (Rect column8)) 2)
      = Inr [[7, 0, 3, 8, 24, 64, 32, 32], [7, 0, 11, 24, 56, 128, 32, 32]]"
    unfolding d rowRanges_0_8_2
    by (simp add: strip_of_def d pix lzwBlocks_1_4 lzwBlocks_5_8)
  have "writeLZWData [] column8 8 2 = writeParallelLZW [] column8 8 2"
    by (simp add: writeLZWData_def Let_def d wrap64_def)
  then have par: "writeLZWData [] column8 8 2
      = Inr [7, 0, 3, 8, 24, 64, 32, 32, 7, 0, 11, 24, 56, 128, 32, 32]"
    using writeParallelLZW_eq [OF wf_column8, of 2 "[]" 8] strips by (simp add: bindE_def)
  show ?thesis
    using rm single par decode_single decode_parallel by simp
qed


end
